theory Spec2Isabelle
  imports Complex_Main
begin

section \<open>Volume profile, point of control and value area of \<open>v4.py\<close>\<close>

text \<open>
  The computation of \<open>v4.py\<close> (lines 49 to 82) is embedded as pure functions. Prices are
  Python floats; they are modelled as rationals, so \<open>np.linspace\<close> is exact here. The
  binning itself only compares prices with the boundaries, and every statement about it
  below is made for the boundaries as they are, so it does not depend on how they were
  rounded. The \<open>Volume\<close> column is a column of integers (\<open>int64\<close>); sums of volumes are
  taken to stay below the range of \<open>int64\<close>, so they are unbounded integers here.
\<close>

subsection \<open>Data\<close>

text \<open>One row of the data frame \<open>df\<close>: the columns the computation and the chart read.\<close>

record Bar =
  Open :: rat
  High :: rat
  Low :: rat
  Close :: rat
  Volume :: int

text \<open>
  The ways the script does not reach a profile: the \<open>df.empty\<close> branch (a warning, no
  computation), and the exceptions of the libraries, which the \<open>except Exception\<close>
  handler of line 123 catches.
\<close>

datatype error = NoData | ValueError | KeyError

text \<open>What the computation hands to the chart (the variables of lines 58 to 82).\<close>

record Profile =
  vp :: "(rat \<times> int) list"
  poc_idx :: int
  poc_price :: rat
  total_vol :: int
  up_i :: int
  down_i :: int
  vah :: rat
  val :: rat

subsection \<open>Price range and boundaries (lines 53 and 54)\<close>

definition price_min :: "Bar list \<Rightarrow> rat" where
  "price_min df = Min (set (map Low df))"

definition price_max :: "Bar list \<Rightarrow> rat" where
  "price_max df = Max (set (map High df))"

text \<open>
  \<open>np.linspace(start, stop, num)\<close> with the default \<open>endpoint=True\<close>: \<open>num\<close> samples
  \<open>start + i * step\<close> with \<open>step = (stop - start) / (num - 1)\<close>, the last one overwritten
  with \<open>stop\<close> when \<open>num > 1\<close>. The slider gives \<open>num\<close> between 50 and 200, a natural
  number.
\<close>

definition np_linspace :: "rat \<Rightarrow> rat \<Rightarrow> nat \<Rightarrow> rat list" where
  "np_linspace start stop num =
     (if num = 0 then []
      else if num = 1 then [start]
      else (map (\<lambda>i. start + of_nat i * ((stop - start) / of_nat (num - 1))) [0..<num])
             [num - 1 := stop])"

definition bins :: "Bar list \<Rightarrow> nat \<Rightarrow> rat list" where
  "bins df bins_count = np_linspace (price_min df) (price_max df) bins_count"

text \<open>
  Lines 49 to 54 as one step: the empty data frame takes the warning branch and computes
  nothing; every other data frame gets its boundaries. There is no other check.
\<close>

definition build_bins :: "Bar list \<Rightarrow> nat \<Rightarrow> error + rat list" where
  "build_bins df bins_count = (if df = [] then Inl NoData else Inr (bins df bins_count))"

subsection \<open>Binning the closes (line 57)\<close>

text \<open>\<open>np.diff\<close>: the differences of neighbours.\<close>

fun np_diff :: "rat list \<Rightarrow> rat list" where
  "np_diff (x # y # ys) = (y - x) # np_diff (y # ys)"
| "np_diff _ = []"

text \<open>The labels \<open>bins[:-1] + np.diff(bins)/2\<close>: the midpoint of each bucket.\<close>

definition bin_labels :: "rat list \<Rightarrow> rat list" where
  "bin_labels bs = map (\<lambda>(b, d). b + d / 2) (zip (butlast bs) (np_diff bs))"

text \<open>
  \<open>bins.searchsorted(x, side='left')\<close> on increasing boundaries: the number of boundaries
  strictly below \<open>x\<close>.
\<close>

definition searchsorted_left :: "rat list \<Rightarrow> rat \<Rightarrow> nat" where
  "searchsorted_left bs x = length (takeWhile (\<lambda>b. b < x) bs)"

text \<open>
  The bucket of one value in \<open>pd.cut\<close> with its defaults \<open>right=True\<close> and
  \<open>include_lowest=False\<close>: the value is missing (\<open>NaN\<close>) when no boundary is below it or
  all of them are, and it is in bucket \<open>ids - 1\<close> otherwise.
\<close>

definition cut_code :: "rat list \<Rightarrow> rat \<Rightarrow> nat option" where
  "cut_code bs x =
     (let ids = searchsorted_left bs x
      in if ids = length bs \<or> ids = 0 then None else Some (ids - 1))"

text \<open>
  \<open>pd.cut(x, bins=bs, labels=labels)\<close>: the checks it makes on boundaries and labels, each
  raising \<open>ValueError\<close>, then the bucket of every value. The result is the categorical
  column: its codes, the categories being \<open>labels\<close> in their order.
\<close>

definition pd_cut :: "rat list \<Rightarrow> rat list \<Rightarrow> rat list \<Rightarrow> error + nat option list" where
  "pd_cut xs bs labels =
     (if \<not> sorted bs then Inl ValueError
      else if \<not> distinct bs \<and> length bs \<noteq> 2 then Inl ValueError
      else if \<not> distinct labels then Inl ValueError
      else if int (length labels) \<noteq> int (length bs) - 1 then Inl ValueError
      else Inr (map (cut_code bs) xs))"

definition bin_mid :: "Bar list \<Rightarrow> nat \<Rightarrow> error + nat option list" where
  "bin_mid df bins_count =
     (let bs = bins df bins_count in pd_cut (map Close df) bs (bin_labels bs))"

subsection \<open>Volume per bucket (lines 58 and 59)\<close>

text \<open>
  \<open>df.groupby('bin_mid', observed=True)['Volume'].sum().reset_index()\<close>: one row per
  category that occurs in the column, in the order of the categories, with the sum of the
  volumes of its rows; rows whose category is missing belong to no group. After
  \<open>reset_index\<close> the rows are numbered from 0.
\<close>

definition bucket_volume :: "Bar list \<Rightarrow> nat option list \<Rightarrow> nat \<Rightarrow> int" where
  "bucket_volume df codes i = sum_list (map (\<lambda>(b, c). Volume b) (filter (\<lambda>(b, c). c = Some i) (zip df codes)))"

definition groupby_sum :: "Bar list \<Rightarrow> nat option list \<Rightarrow> rat list \<Rightarrow> (rat \<times> int) list" where
  "groupby_sum df codes labels =
     map (\<lambda>i. (labels ! i, bucket_volume df codes i))
       (filter (\<lambda>i. Some i \<in> set codes) [0..<length labels])"

definition volume_profile :: "Bar list \<Rightarrow> nat \<Rightarrow> error + (rat \<times> int) list" where
  "volume_profile df bins_count =
     (case bin_mid df bins_count of
        Inl e \<Rightarrow> Inl e
      | Inr codes \<Rightarrow> Inr (groupby_sum df codes (bin_labels (bins df bins_count))))"

subsection \<open>Point of control (lines 62 and 63)\<close>

text \<open>
  \<open>Series.idxmax()\<close>: a scan that keeps the position of the largest value seen so far and
  replaces it only by a strictly larger one; it raises \<open>ValueError\<close> on an empty column.
\<close>

fun idxmax_scan :: "int list \<Rightarrow> nat \<Rightarrow> nat \<Rightarrow> int \<Rightarrow> nat" where
  "idxmax_scan [] i best m = best"
| "idxmax_scan (v # vs) i best m =
     (if m < v then idxmax_scan vs (Suc i) i v else idxmax_scan vs (Suc i) best m)"

definition idxmax :: "int list \<Rightarrow> error + nat" where
  "idxmax vols = (case vols of [] \<Rightarrow> Inl ValueError | v # vs \<Rightarrow> Inr (idxmax_scan vs 1 0 v))"

text \<open>\<open>vp.loc[i, column]\<close> on the rows numbered from 0: \<open>KeyError\<close> for a label that is no row.\<close>

definition loc :: "'a list \<Rightarrow> int \<Rightarrow> error + 'a" where
  "loc col i = (if 0 \<le> i \<and> i < int (length col) then Inr (col ! nat i) else Inl KeyError)"

subsection \<open>Value area (lines 66 to 82)\<close>

definition target_vol :: "int list \<Rightarrow> rat \<Rightarrow> rat" where
  "target_vol vols va_percent = of_int (sum_list vols) * va_percent"

text \<open>The two neighbours of lines 72 and 73; a neighbour that is no row counts 0.\<close>

definition v_up :: "int list \<Rightarrow> int \<Rightarrow> int" where
  "v_up vols up = (if up + 1 < int (length vols) then vols ! nat (up + 1) else 0)"

definition v_down :: "int list \<Rightarrow> int \<Rightarrow> int" where
  "v_down vols down = (if down - 1 \<ge> 0 then vols ! nat (down - 1) else 0)"

text \<open>
  The \<open>while\<close> loop of lines 71 to 80 on the state \<open>(current_vol, up_i, down_i)\<close>. The
  result is the state at its exit, by the loop condition or by \<open>break\<close>; a run that never
  leaves the loop is \<open>None\<close>.
\<close>

partial_function (option) va_loop :: "int list \<Rightarrow> rat \<Rightarrow> int \<Rightarrow> int \<Rightarrow> int \<Rightarrow> (int \<times> int \<times> int) option" where
  "va_loop vols target current_vol up down =
     (if of_int current_vol < target then
        (if v_up vols up = 0 \<and> v_down vols down = 0 then Some (current_vol, up, down)
         else if v_up vols up \<ge> v_down vols down
           then va_loop vols target (current_vol + v_up vols up) (up + 1) down
           else va_loop vols target (current_vol + v_down vols down) up (down - 1))
      else Some (current_vol, up, down))"

declare va_loop.simps [code]

text \<open>Lines 62 to 82 on the rows of \<open>vp\<close>.\<close>

definition value_area :: "(rat \<times> int) list \<Rightarrow> rat \<Rightarrow> (error + Profile) option" where
  "value_area rows va_percent =
     (let vols = map snd rows; mids = map fst rows in
      case idxmax vols of
        Inl e \<Rightarrow> Some (Inl e)
      | Inr p \<Rightarrow>
          (case va_loop vols (target_vol vols va_percent) (vols ! p) (int p) (int p) of
             None \<Rightarrow> None
           | Some (current_vol, up, down) \<Rightarrow>
               (case (loc mids up, loc mids down) of
                  (Inr h, Inr l) \<Rightarrow>
                    Some (Inr \<lparr>vp = rows, poc_idx = int p, poc_price = mids ! p,
                               total_vol = sum_list vols, up_i = up, down_i = down,
                               vah = h, val = l\<rparr>)
                | (Inl e, _) \<Rightarrow> Some (Inl e)
                | (_, Inl e) \<Rightarrow> Some (Inl e))))"

text \<open>The whole computation of lines 49 to 82.\<close>

definition compute_profile :: "Bar list \<Rightarrow> nat \<Rightarrow> rat \<Rightarrow> (error + Profile) option" where
  "compute_profile df bins_count va_percent =
     (if df = [] then Some (Inl NoData)
      else case volume_profile df bins_count of
             Inl e \<Rightarrow> Some (Inl e)
           | Inr rows \<Rightarrow> value_area rows va_percent)"

subsection \<open>Auxiliary notions for the statements\<close>

text \<open>
  The accumulated volume of the rows \<open>down\<close> to \<open>up\<close> of the profile, both included.
\<close>

definition band_volume :: "int list \<Rightarrow> int \<Rightarrow> int \<Rightarrow> int" where
  "band_volume vols down up = sum_list (map (\<lambda>i. vols ! i) [nat down..<nat up + 1])"

text \<open>
  The invariant of the loop: both indices are rows, \<open>down_i\<close> is not above \<open>up_i\<close>, and
  \<open>current_vol\<close> is the volume of the rows between them.
\<close>

definition va_inv :: "int list \<Rightarrow> int \<Rightarrow> int \<Rightarrow> int \<Rightarrow> bool" where
  "va_inv vols c u d \<longleftrightarrow> 0 \<le> d \<and> d \<le> u \<and> u < int (length vols) \<and> c = band_volume vols d u"

text \<open>A row of the data frame from its low, high, close and volume, for the concrete inputs.\<close>

definition bar :: "rat \<Rightarrow> rat \<Rightarrow> rat \<Rightarrow> int \<Rightarrow> Bar" where
  "bar l h c v = \<lparr>Open = c, High = h, Low = l, Close = c, Volume = v\<rparr>"

section \<open>Boundaries, buckets and the volume profile\<close>

subsection \<open>The boundaries of \<open>np.linspace\<close> and the labels\<close>

lemma length_np_linspace: "length (np_linspace a b n) = n"
  by (simp add: np_linspace_def)

lemma nth_np_linspace:
  assumes "2 \<le> n" "i < n"
  shows "np_linspace a b n ! i = a + of_nat i * ((b - a) / of_nat (n - 1))"
proof (cases "i = n - 1")
  case True
  have "of_nat (n - 1) \<noteq> (0 :: rat)" using assms by simp
  then have "a + of_nat (n - 1) * ((b - a) / of_nat (n - 1)) = b" by simp
  then show ?thesis using assms True by (simp add: np_linspace_def)
next
  case False
  then show ?thesis using assms by (simp add: np_linspace_def)
qed

lemma hd_np_linspace:
  assumes "2 \<le> n"
  shows "hd (np_linspace a b n) = a"
proof -
  have "length (np_linspace a b n) \<noteq> 0" using assms by (simp add: length_np_linspace)
  then have "np_linspace a b n \<noteq> []" by fastforce
  then have "hd (np_linspace a b n) = np_linspace a b n ! 0" by (rule hd_conv_nth)
  then show ?thesis using nth_np_linspace [of n 0 a b] assms by simp
qed

lemma last_np_linspace: "2 \<le> n \<Longrightarrow> last (np_linspace a b n) = b"
  by (simp add: np_linspace_def last_list_update)

lemma np_linspace_strict:
  assumes "2 \<le> n" "a < b"
  shows "sorted_wrt (<) (np_linspace a b n)"
proof -
  have pos: "0 < (b - a) / of_nat (n - 1)" using assms by simp
  have "np_linspace a b n ! i < np_linspace a b n ! j" if "i < j" "j < n" for i j
  proof -
    have "(of_nat i :: rat) < of_nat j" using that by simp
    then have "of_nat i * ((b - a) / of_nat (n - 1)) < of_nat j * ((b - a) / of_nat (n - 1))"
      using pos by (simp only: mult_strict_right_mono)
    then show ?thesis using that assms by (simp add: nth_np_linspace)
  qed
  then show ?thesis by (simp add: sorted_wrt_iff_nth_less length_np_linspace)
qed

lemma np_linspace_flat:
  assumes "2 \<le> n"
  shows "np_linspace a a n = replicate n a"
  using assms by (intro nth_equalityI) (simp_all add: length_np_linspace nth_np_linspace)

lemma not_distinct_replicate:
  assumes "2 \<le> n"
  shows "\<not> distinct (replicate n a)"
proof -
  from assms obtain m where "n = Suc (Suc m)" by (metis add_2_eq_Suc le_Suc_ex)
  then show ?thesis by simp
qed

lemma length_np_diff: "length (np_diff bs) = length bs - 1"
  by (induction bs rule: np_diff.induct) auto

lemma nth_np_diff: "Suc i < length bs \<Longrightarrow> np_diff bs ! i = bs ! Suc i - bs ! i"
proof (induction bs arbitrary: i rule: np_diff.induct)
  case (1 x y ys)
  then show ?case by (cases i) auto
qed auto

lemma length_bin_labels: "length (bin_labels bs) = length bs - 1"
  by (simp add: bin_labels_def length_np_diff)

lemma nth_bin_labels:
  assumes "Suc i < length bs"
  shows "bin_labels bs ! i = (bs ! i + bs ! Suc i) / 2"
proof -
  have "i < length (butlast bs)" "i < length (np_diff bs)" using assms by (simp_all add: length_np_diff)
  then show ?thesis using assms
    by (simp add: bin_labels_def nth_butlast nth_np_diff field_simps)
qed

lemma bin_labels_strict:
  assumes "sorted_wrt (<) bs"
  shows "sorted_wrt (<) (bin_labels bs)"
proof -
  have "bin_labels bs ! i < bin_labels bs ! j" if "i < j" "j < length bs - 1" for i j
  proof -
    have a: "bs ! i < bs ! j" "bs ! Suc i < bs ! Suc j" 
      using assms that by (simp_all add: sorted_wrt_iff_nth_less)
    show ?thesis using that a by (simp add: nth_bin_labels)
  qed
  then show ?thesis by (simp add: sorted_wrt_iff_nth_less length_bin_labels)
qed

lemma strict_sorted_distinct: "sorted_wrt (<) (xs :: rat list) \<Longrightarrow> sorted xs \<and> distinct xs"
  using strict_sorted_iff by auto

lemma bins_props:
  assumes "price_min df < price_max df" "2 \<le> n"
  shows "length (bins df n) = n" "sorted_wrt (<) (bins df n)" "sorted (bins df n)"
    "hd (bins df n) = price_min df" "last (bins df n) = price_max df" "bins df n \<noteq> []"
proof -
  show len: "length (bins df n) = n" by (simp add: bins_def length_np_linspace)
  show st: "sorted_wrt (<) (bins df n)" using assms by (simp add: bins_def np_linspace_strict)
  then show "sorted (bins df n)" using strict_sorted_distinct by auto
  show "hd (bins df n) = price_min df" using assms by (simp add: bins_def hd_np_linspace)
  show "last (bins df n) = price_max df" using assms by (simp add: bins_def last_np_linspace)
  show "bins df n \<noteq> []" using len assms(2) by auto
qed

subsection \<open>The bucket of a close\<close>

text \<open>
  On increasing boundaries a value is in bucket \<open>i\<close> exactly when it is above boundary \<open>i\<close>
  and at most boundary \<open>i + 1\<close>: the buckets are open on the left and closed on the right.
\<close>

lemma takeWhile_nth_P: "j < length (takeWhile P xs) \<Longrightarrow> P (xs ! j)"
  by (metis nth_mem set_takeWhileD takeWhile_nth)

lemma cut_code_iff:
  assumes "sorted bs"
  shows "cut_code bs x = Some i \<longleftrightarrow> Suc i < length bs \<and> bs ! i < x \<and> x \<le> bs ! Suc i"
proof
  let ?k = "length (takeWhile (\<lambda>b. b < x) bs)"
  assume "cut_code bs x = Some i"
  then have k: "?k \<noteq> length bs" "?k \<noteq> 0" "i = ?k - 1"
    by (auto simp: cut_code_def searchsorted_left_def Let_def split: if_splits)
  have le: "?k \<le> length bs" by (rule length_takeWhile_le)
  with k have lt: "?k < length bs" by simp
  have "i < ?k" using k by simp
  then have a: "bs ! i < x" by (rule takeWhile_nth_P)
  have "\<not> bs ! ?k < x" using lt by (rule nth_length_takeWhile)
  then have b: "x \<le> bs ! Suc i" using k by simp
  show "Suc i < length bs \<and> bs ! i < x \<and> x \<le> bs ! Suc i" using a b lt k by simp
next
  let ?k = "length (takeWhile (\<lambda>b. b < x) bs)"
  assume h: "Suc i < length bs \<and> bs ! i < x \<and> x \<le> bs ! Suc i"
  have "\<not> Suc i < ?k"
  proof
    assume "Suc i < ?k"
    then have "bs ! Suc i < x" by (rule takeWhile_nth_P)
    with h show False by simp
  qed
  moreover have "\<not> ?k \<le> i"
  proof
    assume ki: "?k \<le> i"
    then have "?k < length bs" using h by simp
    then have "\<not> bs ! ?k < x" by (rule nth_length_takeWhile)
    moreover have "bs ! ?k \<le> bs ! i" using assms ki h by (simp add: sorted_iff_nth_mono)
    ultimately show False using h by simp
  qed
  ultimately have "?k = Suc i" by simp
  then show "cut_code bs x = Some i" using h
    by (simp add: cut_code_def searchsorted_left_def Let_def)
qed

lemma cut_code_exists:
  assumes "sorted bs" "bs \<noteq> []" "hd bs < x" "x \<le> last bs"
  shows "\<exists>i. cut_code bs x = Some i"
proof -
  let ?k = "length (takeWhile (\<lambda>b. b < x) bs)"
  have "takeWhile (\<lambda>b. b < x) bs \<noteq> []" using assms by (simp add: takeWhile_eq_Nil_iff)
  then have k0: "?k \<noteq> 0" by simp
  have "?k \<noteq> length bs"
  proof
    assume e: "?k = length bs"
    have "length bs - 1 < ?k" using e assms(2) by simp
    then have "bs ! (length bs - 1) < x" by (rule takeWhile_nth_P)
    then show False using assms by (simp add: last_conv_nth)
  qed
  then show ?thesis using k0 by (simp add: cut_code_def searchsorted_left_def Let_def)
qed

lemma cut_code_in_range:
  assumes "sorted bs" "cut_code bs x = Some i"
  shows "hd bs < x \<and> x \<le> last bs"
proof -
  from assms have h: "Suc i < length bs" "bs ! i < x" "x \<le> bs ! Suc i"
    by (simp_all add: cut_code_iff)
  then have ne: "bs \<noteq> []" by auto
  have "bs ! 0 \<le> bs ! i" using assms(1) h(1) by (simp add: sorted_iff_nth_mono)
  moreover have "bs ! Suc i \<le> bs ! (length bs - 1)"
    using assms(1) h(1) by (intro sorted_nth_mono) auto
  ultimately show ?thesis using h ne by (simp add: hd_conv_nth last_conv_nth)
qed

lemma cut_code_Some_iff:
  assumes "sorted bs" "bs \<noteq> []"
  shows "(\<exists>i. cut_code bs x = Some i) \<longleftrightarrow> hd bs < x \<and> x \<le> last bs"
  using assms cut_code_in_range cut_code_exists by blast

lemma cut_code_last:
  assumes "sorted_wrt (<) bs" "2 \<le> length bs"
  shows "cut_code bs (last bs) = Some (length bs - 2)"
proof -
  have s: "sorted bs" using assms(1) strict_sorted_distinct by auto
  have ne: "bs \<noteq> []" using assms(2) by auto
  have e: "Suc (length bs - 2) = length bs - 1" using assms(2) by simp
  have "bs ! (length bs - 2) < bs ! (length bs - 1)"
    using assms by (simp add: sorted_wrt_iff_nth_less)
  then show ?thesis using assms(2) ne
    by (simp add: cut_code_iff [OF s] e last_conv_nth)
qed

lemma cut_code_at_min:
  assumes "bs \<noteq> []" "x \<le> hd bs"
  shows "cut_code bs x = None"
proof -
  have "takeWhile (\<lambda>b. b < x) bs = []" using assms by (cases bs) auto
  then show ?thesis by (simp add: cut_code_def searchsorted_left_def)
qed

subsection \<open>The rows of the profile\<close>

lemma bin_mid_valid:
  assumes "price_min df < price_max df" "2 \<le> n"
  shows "bin_mid df n = Inr (map (\<lambda>b. cut_code (bins df n) (Close b)) df)"
proof -
  have st: "sorted_wrt (<) (bins df n)" using assms by (simp add: bins_def np_linspace_strict)
  then have a: "sorted (bins df n)" "distinct (bins df n)" using strict_sorted_distinct by auto
  have "sorted_wrt (<) (bin_labels (bins df n))" using st by (rule bin_labels_strict)
  then have b: "distinct (bin_labels (bins df n))" using strict_sorted_distinct by auto
  have c: "int (length (bin_labels (bins df n))) = int (length (bins df n)) - 1"
    using assms by (simp add: length_bin_labels bins_def length_np_linspace)
  show ?thesis using a b c by (simp add: bin_mid_def pd_cut_def Let_def comp_def)
qed

lemma bin_mid_degenerate:
  assumes "price_min df = price_max df" "3 \<le> n"
  shows "bin_mid df n = Inl ValueError"
proof -
  have "bins df n = replicate n (price_max df)"
    using assms by (simp add: bins_def np_linspace_flat)
  then show ?thesis using assms(2)
    by (simp add: bin_mid_def pd_cut_def Let_def not_distinct_replicate)
qed

lemma bucket_volume_map:
  "bucket_volume df (map f df) i = sum_list (map Volume (filter (\<lambda>b. f b = Some i) df))"
  by (induction df) (auto simp: bucket_volume_def)

lemma volume_profile_valid:
  assumes "price_min df < price_max df" "2 \<le> n"
  shows "volume_profile df n =
     Inr (map (\<lambda>i. ((bins df n ! i + bins df n ! Suc i) / 2,
                     sum_list (map Volume
                       (filter (\<lambda>b. bins df n ! i < Close b \<and> Close b \<le> bins df n ! Suc i) df))))
            (filter (\<lambda>i. \<exists>b\<in>set df. bins df n ! i < Close b \<and> Close b \<le> bins df n ! Suc i)
               [0..<n - 1]))"
proof -
  let ?bs = "bins df n"
  have len: "length ?bs = n" by (simp add: bins_def length_np_linspace)
  have "sorted_wrt (<) ?bs" using assms by (simp add: bins_def np_linspace_strict)
  then have srt: "sorted ?bs" using strict_sorted_distinct by auto
  have cc: "cut_code ?bs x = Some i \<longleftrightarrow> ?bs ! i < x \<and> x \<le> ?bs ! Suc i" if "i < n - 1" for i x
    using cut_code_iff [OF srt, of x i] that len by auto
  have obs: "Some i \<in> set (map (\<lambda>b. cut_code ?bs (Close b)) df) \<longleftrightarrow>
             (\<exists>b\<in>set df. ?bs ! i < Close b \<and> Close b \<le> ?bs ! Suc i)" if "i < n - 1" for i
  proof -
    have "Some i \<in> set (map (\<lambda>b. cut_code ?bs (Close b)) df) \<longleftrightarrow>
          (\<exists>b\<in>set df. cut_code ?bs (Close b) = Some i)"
      by force
    then show ?thesis using cc [OF that] by simp
  qed
  have vol: "bucket_volume df (map (\<lambda>b. cut_code ?bs (Close b)) df) i =
             sum_list (map Volume (filter (\<lambda>b. ?bs ! i < Close b \<and> Close b \<le> ?bs ! Suc i) df))"
    if "i < n - 1" for i
    using cc [OF that] by (simp add: bucket_volume_map)
  have lab: "bin_labels ?bs ! i = (?bs ! i + ?bs ! Suc i) / 2" if "i < n - 1" for i
    using that len by (simp add: nth_bin_labels)
  have f: "filter (\<lambda>i. Some i \<in> set (map (\<lambda>b. cut_code ?bs (Close b)) df)) [0..<n - 1] =
           filter (\<lambda>i. \<exists>b\<in>set df. ?bs ! i < Close b \<and> Close b \<le> ?bs ! Suc i) [0..<n - 1]"
  proof (rule filter_cong)
    fix i assume "i \<in> set [0..<n - 1]"
    then have "i < n - 1" by simp
    then show "(Some i \<in> set (map (\<lambda>b. cut_code ?bs (Close b)) df)) =
               (\<exists>b\<in>set df. ?bs ! i < Close b \<and> Close b \<le> ?bs ! Suc i)"
      by (rule obs)
  qed simp
  have "groupby_sum df (map (\<lambda>b. cut_code ?bs (Close b)) df) (bin_labels ?bs) =
        map (\<lambda>i. ((?bs ! i + ?bs ! Suc i) / 2,
                     sum_list (map Volume
                       (filter (\<lambda>b. ?bs ! i < Close b \<and> Close b \<le> ?bs ! Suc i) df))))
            (filter (\<lambda>i. \<exists>b\<in>set df. ?bs ! i < Close b \<and> Close b \<le> ?bs ! Suc i)
               [0..<n - 1])"
    unfolding groupby_sum_def length_bin_labels len f
  proof (rule map_cong)
    fix i assume "i \<in> set (filter (\<lambda>i. \<exists>b\<in>set df. ?bs ! i < Close b \<and> Close b \<le> ?bs ! Suc i)
               [0..<n - 1])"
    then have "i < n - 1" by simp
    then show "(bin_labels ?bs ! i, bucket_volume df (map (\<lambda>b. cut_code ?bs (Close b)) df) i) =
       ((?bs ! i + ?bs ! Suc i) / 2,
         sum_list (map Volume (filter (\<lambda>b. ?bs ! i < Close b \<and> Close b \<le> ?bs ! Suc i) df)))"
      using lab vol by simp
  qed simp
  then show ?thesis using bin_mid_valid [OF assms] by (simp add: volume_profile_def)
qed

subsection \<open>The total volume of the profile\<close>

lemma sum_list_delta:
  "sum_list (map (\<lambda>i. if f = Some i then (v :: int) else 0) [0..<m]) =
     (if \<exists>i<m. f = Some i then v else 0)"
proof (induction m)
  case 0
  then show ?case by simp
next
  case (Suc m)
  show ?case
  proof (cases "f = Some m")
    case True
    then have "\<not> (\<exists>i<m. f = Some i)" by auto
    then show ?thesis using Suc True by auto
  next
    case False
    then have "(\<exists>i<Suc m. f = Some i) = (\<exists>i<m. f = Some i)" by (auto simp: less_Suc_eq)
    then show ?thesis using Suc False by simp
  qed
qed

lemma total_by_bucket:
  "sum_list (map (\<lambda>i. sum_list (map Volume (filter (\<lambda>b. f b = Some i) df))) [0..<m]) =
     sum_list (map Volume (filter (\<lambda>b. \<exists>i<m. f b = Some i) df))"
proof (induction df)
  case Nil
  then show ?case by simp
next
  case (Cons b df)
  have "sum_list (map (\<lambda>i. sum_list (map Volume (filter (\<lambda>b. f b = Some i) (b # df)))) [0..<m]) =
        sum_list (map (\<lambda>i. (if f b = Some i then Volume b else 0) +
                          sum_list (map Volume (filter (\<lambda>b. f b = Some i) df))) [0..<m])"
    by (intro arg_cong [where f = sum_list] map_cong) auto
  also have "\<dots> = (if \<exists>i<m. f b = Some i then Volume b else 0) +
        sum_list (map Volume (filter (\<lambda>b. \<exists>i<m. f b = Some i) df))"
    by (simp only: sum_list_addf sum_list_delta Cons.IH)
  also have "\<dots> = sum_list (map Volume (filter (\<lambda>b. \<exists>i<m. f b = Some i) (b # df)))"
    by auto
  finally show ?case .
qed

lemma sum_filter_zero:
  assumes "\<And>x. x \<in> set xs \<Longrightarrow> \<not> P x \<Longrightarrow> g x = (0 :: int)"
  shows "sum_list (map g (filter P xs)) = sum_list (map g xs)"
  using assms by (induction xs) auto

text \<open>
  For a non-degenerate price range the volumes of the rows add up to the volumes of the
  bars whose close is above \<open>price_min\<close> and at most \<open>price_max\<close>: a bar that closes at
  \<open>price_min\<close> is in no bucket and its volume is in no row.
\<close>

lemma volume_profile_total:
  assumes "price_min df < price_max df" "2 \<le> n"
  shows "\<exists>rows. volume_profile df n = Inr rows \<and>
           sum_list (map snd rows) =
             sum_list (map Volume (filter (\<lambda>b. price_min df < Close b \<and> Close b \<le> price_max df) df))"
proof -
  let ?bs = "bins df n"
  let ?m = "n - 1"
  let ?in = "\<lambda>i b. ?bs ! i < Close b \<and> Close b \<le> ?bs ! Suc i"
  let ?obs = "\<lambda>i. \<exists>b\<in>set df. ?in i b"
  let ?vol = "\<lambda>i. sum_list (map Volume (filter (?in i) df))"
  let ?f = "\<lambda>b. cut_code ?bs (Close b)"
  note p = bins_props [OF assms]
  have vp: "volume_profile df n =
      Inr (map (\<lambda>i. ((?bs ! i + ?bs ! Suc i) / 2, ?vol i)) (filter ?obs [0..<?m]))"
    using assms by (rule volume_profile_valid)
  have snd_rows: "map snd (map (\<lambda>i. ((?bs ! i + ?bs ! Suc i) / 2, ?vol i)) (filter ?obs [0..<?m])) =
      map ?vol (filter ?obs [0..<?m])" by (simp add: comp_def)
  have empty: "?vol i = 0" if "\<not> ?obs i" for i
  proof -
    have "filter (?in i) df = []" using that by (simp add: filter_empty_conv)
    then show ?thesis by simp
  qed
  have s1: "sum_list (map ?vol (filter ?obs [0..<?m])) = sum_list (map ?vol [0..<?m])"
    by (rule sum_filter_zero) (rule empty)
  have cc: "?in i b = (?f b = Some i)" if "i < ?m" for i b
  proof -
    have "Suc i < length ?bs" using that p(1) by simp
    then show ?thesis by (simp add: cut_code_iff [OF p(3)])
  qed
  have "map ?vol [0..<?m] =
        map (\<lambda>i. sum_list (map Volume (filter (\<lambda>b. ?f b = Some i) df))) [0..<?m]"
  proof (rule map_cong)
    fix i assume "i \<in> set [0..<?m]"
    then have "i < ?m" by simp
    then have "filter (?in i) df = filter (\<lambda>b. ?f b = Some i) df"
      by (intro filter_cong) (simp_all add: cc)
    then show "?vol i = sum_list (map Volume (filter (\<lambda>b. ?f b = Some i) df))" by simp
  qed simp
  then have s2: "sum_list (map ?vol [0..<?m]) =
        sum_list (map Volume (filter (\<lambda>b. \<exists>i<?m. ?f b = Some i) df))"
    by (simp only: total_by_bucket)
  have rng: "(\<exists>i<?m. ?f b = Some i) = (price_min df < Close b \<and> Close b \<le> price_max df)" for b
  proof -
    have "(\<exists>i<?m. ?f b = Some i) = (\<exists>i. ?f b = Some i)"
    proof
      assume "\<exists>i<?m. ?f b = Some i"
      then show "\<exists>i. ?f b = Some i" by blast
    next
      assume "\<exists>i. ?f b = Some i"
      then obtain i where i: "?f b = Some i" ..
      then have "Suc i < length ?bs" by (simp add: cut_code_iff [OF p(3)])
      then have "i < ?m" using p(1) by simp
      with i show "\<exists>i<?m. ?f b = Some i" by blast
    qed
    also have "\<dots> = (hd ?bs < Close b \<and> Close b \<le> last ?bs)"
      using p(3,6) by (rule cut_code_Some_iff)
    finally show ?thesis by (simp add: p(4,5))
  qed
  have s3: "filter (\<lambda>b. \<exists>i<?m. ?f b = Some i) df =
            filter (\<lambda>b. price_min df < Close b \<and> Close b \<le> price_max df) df"
    by (rule filter_cong [OF refl]) (rule rng)
  have "sum_list (map snd (map (\<lambda>i. ((?bs ! i + ?bs ! Suc i) / 2, ?vol i)) (filter ?obs [0..<?m]))) =
        sum_list (map ?vol (filter ?obs [0..<?m]))"
    by (simp only: snd_rows)
  also have "\<dots> = sum_list (map ?vol [0..<?m])" by (rule s1)
  also have "\<dots> = sum_list (map Volume (filter (\<lambda>b. \<exists>i<?m. ?f b = Some i) df))" by (rule s2)
  also have "\<dots> = sum_list (map Volume
      (filter (\<lambda>b. price_min df < Close b \<and> Close b \<le> price_max df) df))"
    by (simp only: s3)
  finally show ?thesis using vp by blast
qed

subsection \<open>Concrete profiles on 50 boundaries\<close>

text \<open>
  Prices from \<open>a\<close> to \<open>a + n - 1\<close> with \<open>n\<close> boundaries give the boundaries
  \<open>a, a + 1, \<dots>, a + n - 1\<close>; the profile of such a data frame is read off the closes. This is how the concrete profiles
  below, with the 50 boundaries the slider allows, are computed.
\<close>

lemma filter_upt_prefix:
  assumes "k \<le> m" "\<And>i. k \<le> i \<Longrightarrow> i < m \<Longrightarrow> \<not> P i"
  shows "filter P [0..<m] = filter P [0..<k]"
proof -
  have "[0..<m] = [0..<k] @ [k..<m]" using assms(1) by (metis le_add_diff_inverse upt_add_eq_append zero_le)
  moreover have "filter P [k..<m] = []" using assms(2) by (simp add: filter_empty_conv)
  ultimately show ?thesis by simp
qed

lemma unit_bins_nth:
  assumes "2 \<le> n" "price_min df = a" "price_max df = a + of_nat (n - 1)" "i < n"
  shows "bins df n ! i = a + of_nat i"
proof -
  have "of_nat (n - 1) \<noteq> (0 :: rat)" using assms(1) by simp
  then show ?thesis using assms by (simp add: bins_def nth_np_linspace)
qed

lemma profile_unit_grid:
  assumes "2 \<le> n" "price_min df = a" "price_max df = a + of_nat (n - 1)" "k \<le> n - 1"
    and "\<And>b. b \<in> set df \<Longrightarrow> Close b \<le> a + of_nat k"
  shows "volume_profile df n =
     Inr (map (\<lambda>i. ((a + of_nat i + (a + of_nat (Suc i))) / 2,
                     sum_list (map Volume
                       (filter (\<lambda>b. a + of_nat i < Close b \<and> Close b \<le> a + of_nat (Suc i)) df))))
            (filter (\<lambda>i. \<exists>b\<in>set df. a + of_nat i < Close b \<and> Close b \<le> a + of_nat (Suc i))
               [0..<k]))"
proof -
  let ?P = "\<lambda>i. \<exists>b\<in>set df. bins df n ! i < Close b \<and> Close b \<le> bins df n ! Suc i"
  let ?Q = "\<lambda>i. \<exists>b\<in>set df. a + of_nat i < Close b \<and> Close b \<le> a + of_nat (Suc i)"
  have v: "price_min df < price_max df" using assms(1-3) by simp
  have nth: "bins df n ! i = a + of_nat i" if "i < n" for i
    using assms(1-3) that by (rule unit_bins_nth)
  have none: "\<not> ?P i" if "k \<le> i" "i < n - 1" for i
  proof
    assume "?P i"
    then obtain b where b: "b \<in> set df" "bins df n ! i < Close b" by blast
    have "(of_nat k :: rat) \<le> of_nat i" using that by simp
    moreover have "bins df n ! i = a + of_nat i" using that by (simp add: nth)
    ultimately show False using b assms(5) [of b] by simp
  qed
  have f1: "filter ?P [0..<n - 1] = filter ?P [0..<k]"
    using assms(4) none by (rule filter_upt_prefix)
  have f2: "filter ?P [0..<k] = filter ?Q [0..<k]"
  proof (rule filter_cong)
    fix i assume "i \<in> set [0..<k]"
    then have "i < n" "Suc i < n" using assms(1,4) by auto
    then show "?P i = ?Q i" by (simp only: nth)
  qed simp
  have "map (\<lambda>i. ((bins df n ! i + bins df n ! Suc i) / 2,
                     sum_list (map Volume
                       (filter (\<lambda>b. bins df n ! i < Close b \<and> Close b \<le> bins df n ! Suc i) df))))
            (filter ?Q [0..<k]) =
        map (\<lambda>i. ((a + of_nat i + (a + of_nat (Suc i))) / 2,
                     sum_list (map Volume
                       (filter (\<lambda>b. a + of_nat i < Close b \<and> Close b \<le> a + of_nat (Suc i)) df))))
            (filter ?Q [0..<k])"
  proof (rule map_cong)
    fix i assume "i \<in> set (filter ?Q [0..<k])"
    then have "i < n" "Suc i < n" using assms(1,4) by auto
    then show "((bins df n ! i + bins df n ! Suc i) / 2,
                     sum_list (map Volume
                       (filter (\<lambda>b. bins df n ! i < Close b \<and> Close b \<le> bins df n ! Suc i) df))) =
        ((a + of_nat i + (a + of_nat (Suc i))) / 2,
                     sum_list (map Volume
                       (filter (\<lambda>b. a + of_nat i < Close b \<and> Close b \<le> a + of_nat (Suc i)) df)))"
      by (simp only: nth)
  qed simp
  then show ?thesis
    unfolding volume_profile_valid [OF v assms(1)] f1 f2 by simp
qed

lemma bar_sel:
  "Close (bar l h c v) = c" "Volume (bar l h c v) = v" "Low (bar l h c v) = l" "High (bar l h c v) = h"
  by (simp_all add: bar_def)

lemma low_bars:
  "price_min [bar 1 50 1 5, bar 1 50 2 10] = 1"
  "price_max [bar 1 50 1 5, bar 1 50 2 10] = 50"
  by (simp_all add: price_min_def price_max_def bar_def)

lemma upt_3: "[0..<3] = [0, 1, 2 :: nat]"
  by (simp add: upt_rec)

lemma upt_4: "[0..<4] = [0, 1, 2, 3 :: nat]"
  by (simp add: upt_rec)

lemma gap_profile:
  "volume_profile [bar 1 50 2 5, bar 1 50 4 7] 50 = Inr [(3/2, 5), (7/2, 7)]"
proof -
  let ?df = "[bar 1 50 2 5, bar 1 50 4 7]"
  have pm: "price_min ?df = 1" "price_max ?df = 1 + of_nat (50 - 1)"
    by (simp_all add: price_min_def price_max_def bar_sel)
  have cl: "\<And>b. b \<in> set ?df \<Longrightarrow> Close b \<le> 1 + of_nat 3" by (auto simp: bar_sel)
  show ?thesis
    unfolding profile_unit_grid [where n = 50 and a = 1 and k = 3, OF _ pm _ cl, simplified]
    by (simp add: bar_sel upt_3)
qed

lemma three_profile:
  "volume_profile [bar 1 50 2 5, bar 1 50 3 0, bar 1 50 4 7] 50 = Inr [(3/2, 5), (5/2, 0), (7/2, 7)]"
proof -
  let ?df = "[bar 1 50 2 5, bar 1 50 3 0, bar 1 50 4 7]"
  have pm: "price_min ?df = 1" "price_max ?df = 1 + of_nat (50 - 1)"
    by (simp_all add: price_min_def price_max_def bar_sel)
  have cl: "\<And>b. b \<in> set ?df \<Longrightarrow> Close b \<le> 1 + of_nat 3" by (auto simp: bar_sel)
  show ?thesis
    unfolding profile_unit_grid [where n = 50 and a = 1 and k = 3, OF _ pm _ cl, simplified]
    by (simp add: bar_sel upt_3)
qed

lemma four_profile:
  "volume_profile [bar 1 50 2 5, bar 1 50 3 3, bar 1 50 4 7, bar 1 50 5 1] 50 =
     Inr [(3/2, 5), (5/2, 3), (7/2, 7), (9/2, 1)]"
proof -
  let ?df = "[bar 1 50 2 5, bar 1 50 3 3, bar 1 50 4 7, bar 1 50 5 1]"
  have pm: "price_min ?df = 1" "price_max ?df = 1 + of_nat (50 - 1)"
    by (simp_all add: price_min_def price_max_def bar_sel)
  have cl: "\<And>b. b \<in> set ?df \<Longrightarrow> Close b \<le> 1 + of_nat 4" by (auto simp: bar_sel)
  show ?thesis
    unfolding profile_unit_grid [where n = 50 and a = 1 and k = 4, OF _ pm _ cl, simplified]
    by (simp add: bar_sel upt_4)
qed

lemma low_profile:
  "volume_profile [bar 1 50 1 5, bar 1 50 2 10] 50 = Inr [(3/2, 10)]"
proof -
  let ?df = "[bar 1 50 1 5, bar 1 50 2 10]"
  have pm: "price_min ?df = 1" "price_max ?df = 1 + of_nat (50 - 1)" by (simp_all add: low_bars)
  have cl: "\<And>b. b \<in> set ?df \<Longrightarrow> Close b \<le> 1 + of_nat 1" by (auto simp: bar_sel)
  show ?thesis
    unfolding profile_unit_grid [where n = 50 and a = 1 and k = 1, OF _ pm _ cl, simplified]
    by (simp add: bar_sel)
qed

lemma zero_profile:
  "volume_profile [bar 1 50 2 0] 50 = Inr [(3/2, 0)]"
proof -
  let ?df = "[bar 1 50 2 0]"
  have pm: "price_min ?df = 1" "price_max ?df = 1 + of_nat (50 - 1)"
    by (simp_all add: price_min_def price_max_def bar_sel)
  have cl: "\<And>b. b \<in> set ?df \<Longrightarrow> Close b \<le> 1 + of_nat 1" by (auto simp: bar_sel)
  show ?thesis
    unfolding profile_unit_grid [where n = 50 and a = 1 and k = 1, OF _ pm _ cl, simplified]
    by (simp add: bar_sel)
qed

section \<open>The claims on the binning\<close>

subsection \<open>Building the boundaries\<close>

text \<open>
  C5, as amended: building the boundaries yields none exactly when the data frame is empty
  (the warning branch). For every other data frame and a count of at least 2 it returns
  that many linearly spaced boundaries from \<open>price_min\<close> to \<open>price_max\<close> inclusive, also when
  the two are equal, where all boundaries coincide; such a range is refused only by the
  binning that follows, which raises \<open>ValueError\<close> for a count of at least 3, so that no
  profile is computed.
\<close>

theorem build_bins_only_checks_empty:
  "(isl (build_bins df bins_count) \<longleftrightarrow> df = []) \<and>
   (df \<noteq> [] \<longrightarrow> 2 \<le> bins_count \<longrightarrow>
      (\<exists>bs. build_bins df bins_count = Inr bs \<and> length bs = bins_count \<and>
            hd bs = price_min df \<and> last bs = price_max df \<and>
            (\<forall>i<bins_count. bs ! i =
               price_min df + of_nat i * ((price_max df - price_min df) / of_nat (bins_count - 1))))) \<and>
   (df \<noteq> [] \<longrightarrow> price_min df = price_max df \<longrightarrow> 3 \<le> bins_count \<longrightarrow>
      bin_mid df bins_count = Inl ValueError \<and>
      compute_profile df bins_count va_percent = Some (Inl ValueError))"
proof (intro conjI impI)
  show "isl (build_bins df bins_count) \<longleftrightarrow> df = []" by (simp add: build_bins_def)
next
  assume "df \<noteq> []" "2 \<le> bins_count"
  then show "\<exists>bs. build_bins df bins_count = Inr bs \<and> length bs = bins_count \<and>
            hd bs = price_min df \<and> last bs = price_max df \<and>
            (\<forall>i<bins_count. bs ! i =
               price_min df + of_nat i * ((price_max df - price_min df) / of_nat (bins_count - 1)))"
    by (simp add: build_bins_def bins_def length_np_linspace hd_np_linspace last_np_linspace
        nth_np_linspace)
next
  assume "df \<noteq> []" "price_min df = price_max df" "3 \<le> bins_count"
  then show "bin_mid df bins_count = Inl ValueError" by (simp add: bin_mid_degenerate)
next
  assume "df \<noteq> []" "price_min df = price_max df" "3 \<le> bins_count"
  then show "compute_profile df bins_count va_percent = Some (Inl ValueError)"
    by (simp add: compute_profile_def volume_profile_def bin_mid_degenerate)
qed

theorem build_bins_only_checks_empty_witness:
  "[bar 1 50 1 5, bar 1 50 2 10] \<noteq> [] \<and> (2 :: nat) \<le> 50 \<and>
   [bar 5 5 5 1] \<noteq> [] \<and> price_min [bar 5 5 5 1] = price_max [bar 5 5 5 1] \<and> (3 :: nat) \<le> 50 \<and>
   isl (build_bins [] 50) \<and>
   \<not> isl (build_bins [bar 1 50 1 5, bar 1 50 2 10] 50) \<and>
   bin_mid [bar 5 5 5 1] 50 = Inl ValueError"
proof -
  have a: "price_min [bar 5 5 5 1] = price_max [bar 5 5 5 1]"
    by (simp add: price_min_def price_max_def bar_sel)
  show ?thesis
    using build_bins_only_checks_empty [of "[]" 50 "7/10"]
      build_bins_only_checks_empty [of "[bar 1 50 1 5, bar 1 50 2 10]" 50 "7/10"]
      build_bins_only_checks_empty [of "[bar 5 5 5 1]" 50 "7/10"] a
    by simp
qed

text \<open>
  Counterexample to C5 as it was stated: one bar with low, high and close all 5, and 50
  boundaries. The range is degenerate and the boundaries are built all the same: 50
  times 5.
\<close>

theorem degenerate_range_counterexample:
  "[bar 5 5 5 1] \<noteq> [] \<and> price_min [bar 5 5 5 1] = 5 \<and> price_max [bar 5 5 5 1] = 5 \<and>
   build_bins [bar 5 5 5 1] 50 = Inr (replicate 50 5)"
  by (simp add: build_bins_def bins_def price_min_def price_max_def bar_sel np_linspace_flat)

subsection \<open>The bucket of a close in the computation\<close>

text \<open>
  C1, as amended: with at least two boundaries, the close of a bar that is above
  \<open>price_min\<close> and at most \<open>price_max\<close> is put in the one bucket \<open>i\<close> with
  \<open>bins[i] < close \<le> bins[i + 1]\<close>: the buckets are open on the left and closed on the
  right, so a close equal to \<open>price_max\<close> is in the last bucket. (A close equal to
  \<open>price_min\<close> is outside this statement.)
\<close>

theorem close_in_left_open_bucket:
  assumes "2 \<le> bins_count" and "b \<in> set df"
    and "price_min df < Close b" and "Close b \<le> price_max df"
  shows "bin_mid df bins_count = Inr (map (\<lambda>b. cut_code (bins df bins_count) (Close b)) df) \<and>
         (\<exists>i. cut_code (bins df bins_count) (Close b) = Some i \<and> Suc i < bins_count \<and>
              bins df bins_count ! i < Close b \<and> Close b \<le> bins df bins_count ! Suc i \<and>
              (\<forall>j. Suc j < bins_count \<and> bins df bins_count ! j < Close b \<and>
                   Close b \<le> bins df bins_count ! Suc j \<longrightarrow> j = i) \<and>
              (Close b = price_max df \<longrightarrow> Suc i = bins_count - 1))"
proof -
  let ?bs = "bins df bins_count"
  have v: "price_min df < price_max df" using assms(3,4) by simp
  note p = bins_props [OF v assms(1)]
  have "\<exists>i. cut_code ?bs (Close b) = Some i"
    using assms(3,4) p by (simp add: cut_code_Some_iff)
  then obtain i where i: "cut_code ?bs (Close b) = Some i" ..
  then have r: "Suc i < bins_count" "?bs ! i < Close b" "Close b \<le> ?bs ! Suc i"
    using p(1,3) by (simp_all add: cut_code_iff)
  have u: "j = i" if "Suc j < bins_count \<and> ?bs ! j < Close b \<and> Close b \<le> ?bs ! Suc j" for j
  proof -
    have "cut_code ?bs (Close b) = Some j" using that p(1,3) by (simp add: cut_code_iff)
    with i show ?thesis by simp
  qed
  have m: "Suc i = bins_count - 1" if "Close b = price_max df"
  proof -
    have "cut_code ?bs (last ?bs) = Some (length ?bs - 2)"
      using p(1,2) assms(1) by (intro cut_code_last) simp_all
    then have "i = bins_count - 2" using i that p(1,5) by simp
    then show ?thesis using assms(1) by simp
  qed
  show ?thesis using bin_mid_valid [OF v assms(1)] i r u m by blast
qed

theorem close_in_left_open_bucket_witness:
  "(2 :: nat) \<le> 50 \<and> bar 1 50 2 10 \<in> set [bar 1 50 1 5, bar 1 50 2 10] \<and>
   price_min [bar 1 50 1 5, bar 1 50 2 10] < Close (bar 1 50 2 10) \<and>
   Close (bar 1 50 2 10) \<le> price_max [bar 1 50 1 5, bar 1 50 2 10] \<and>
   bin_mid [bar 1 50 1 5, bar 1 50 2 10] 50 =
     Inr (map (\<lambda>b. cut_code (bins [bar 1 50 1 5, bar 1 50 2 10] 50) (Close b))
            [bar 1 50 1 5, bar 1 50 2 10])"
proof -
  have a: "(2 :: nat) \<le> 50" by simp
  have b: "bar 1 50 2 10 \<in> set [bar 1 50 1 5, bar 1 50 2 10]" by simp
  have c: "price_min [bar 1 50 1 5, bar 1 50 2 10] < Close (bar 1 50 2 10)"
    by (simp add: low_bars) (simp add: bar_def)
  have d: "Close (bar 1 50 2 10) \<le> price_max [bar 1 50 1 5, bar 1 50 2 10]"
    by (simp add: low_bars) (simp add: bar_def)
  from close_in_left_open_bucket [OF a b c d] a b c d show ?thesis by blast
qed

text \<open>
  Counterexample to C1 as it was stated: two bars between 1 and 50 with closes 1 and 2,
  and 50 boundaries \<open>1, 2, \<dots>, 50\<close>. The close 2 is the boundary between the first two
  buckets and is put in the first one (code 0), not in \<open>[2, 3)\<close>; the close 1 is
  \<open>price_min\<close> and gets no bucket at all.
\<close>

theorem close_at_boundary_counterexample:
  "price_min [bar 1 50 1 5, bar 1 50 2 10] = 1 \<and>
   bins [bar 1 50 1 5, bar 1 50 2 10] 50 ! 0 = 1 \<and>
   bins [bar 1 50 1 5, bar 1 50 2 10] 50 ! 1 = 2 \<and>
   bins [bar 1 50 1 5, bar 1 50 2 10] 50 ! 2 = 3 \<and>
   map Close [bar 1 50 1 5, bar 1 50 2 10] = [1, 2] \<and>
   bin_mid [bar 1 50 1 5, bar 1 50 2 10] 50 = Inr [None, Some 0]"
proof -
  let ?df = "[bar 1 50 1 5, bar 1 50 2 10]"
  have pm: "price_min ?df = 1" "price_max ?df = 1 + of_nat (50 - 1)" by (simp_all add: low_bars)
  have nth: "bins ?df 50 ! i = 1 + of_nat i" if "i < 50" for i
    using that pm by (intro unit_bins_nth) simp_all
  have v: "price_min ?df < price_max ?df" by (simp add: low_bars)
  note p = bins_props [OF v, of 50, simplified]
  have c0: "cut_code (bins ?df 50) 1 = None"
    using p by (intro cut_code_at_min) (simp_all add: low_bars)
  have c1: "cut_code (bins ?df 50) 2 = Some 0"
    using p(1) by (simp add: cut_code_iff [OF p(3)] nth)
  have "bin_mid ?df 50 = Inr [None, Some 0]"
    unfolding bin_mid_valid [OF v, of 50, simplified] by (simp add: bar_sel c0 c1)
  moreover have "map Close ?df = [1, 2]" by (simp add: bar_sel)
  ultimately show ?thesis using nth [of 0] nth [of 1] nth [of 2] pm(1) by simp
qed

subsection \<open>Which buckets are rows of the profile\<close>

lemma mid_strict:
  assumes "sorted_wrt (<) (bs :: rat list)" "i < j" "Suc j < length bs"
  shows "(bs ! i + bs ! Suc i) / 2 < (bs ! j + bs ! Suc j) / 2"
proof -
  have "bs ! i < bs ! j" "bs ! Suc i < bs ! Suc j"
    using assms by (simp_all add: sorted_wrt_iff_nth_less)
  then show ?thesis by simp
qed

lemma rows_core:
  fixes mid :: "nat \<Rightarrow> rat" and vol :: "nat \<Rightarrow> int"
  assumes mono: "\<And>i j. i < j \<Longrightarrow> j < m \<Longrightarrow> mid i < mid j"
  shows "sorted_wrt (<) (map fst (map (\<lambda>i. (mid i, vol i)) (filter obs [0..<m])))"
    and "\<forall>i<m. (mid i \<in> fst ` set (map (\<lambda>i. (mid i, vol i)) (filter obs [0..<m]))) = obs i"
    and "\<forall>i<m. obs i \<longrightarrow> (mid i, vol i) \<in> set (map (\<lambda>i. (mid i, vol i)) (filter obs [0..<m]))"
proof -
  have "sorted_wrt (\<lambda>i j. mid i < mid j) [0..<m]"
  proof (rule sorted_wrt_mono_rel [where P = "(<)"])
    fix i j assume "i \<in> set [0..<m]" "j \<in> set [0..<m]" "i < j"
    then have "i < j" "j < m" by simp_all
    then show "mid i < mid j" by (rule mono)
  next
    show "sorted_wrt (<) [0..<m]" by simp
  qed
  then have "sorted_wrt (\<lambda>i j. mid i < mid j) (filter obs [0..<m])"
    by (rule sorted_wrt_filter)
  then show "sorted_wrt (<) (map fst (map (\<lambda>i. (mid i, vol i)) (filter obs [0..<m])))"
    by (simp add: sorted_wrt_map comp_def)
  have inj: "i = j" if "i < m" "j < m" "mid i = mid j" for i j
  proof (rule ccontr)
    assume "i \<noteq> j"
    then consider "i < j" | "j < i" by linarith
    then show False using mono [of i j] mono [of j i] that by cases simp_all
  qed
  have fst_set: "fst ` set (map (\<lambda>i. (mid i, vol i)) (filter obs [0..<m])) = mid ` {i. i < m \<and> obs i}"
    by (auto simp: image_iff)
  show "\<forall>i<m. (mid i \<in> fst ` set (map (\<lambda>i. (mid i, vol i)) (filter obs [0..<m]))) = obs i"
    unfolding fst_set
  proof (intro allI impI iffI)
    fix i assume i: "i < m" and "mid i \<in> mid ` {i. i < m \<and> obs i}"
    then obtain j where j: "j < m" "obs j" "mid i = mid j" by blast
    then have "i = j" using i inj by blast
    then show "obs i" using j by simp
  next
    fix i assume "i < m" "obs i"
    then show "mid i \<in> mid ` {i. i < m \<and> obs i}" by blast
  qed
  show "\<forall>i<m. obs i \<longrightarrow> (mid i, vol i) \<in> set (map (\<lambda>i. (mid i, vol i)) (filter obs [0..<m]))"
    by (auto simp: image_iff)
qed

text \<open>
  C3, as amended: for a non-degenerate price range and at least two boundaries, the
  aggregation outputs one row per bucket that holds the close of at least one bar, in
  strictly ascending order of midpoint. Such a bucket is a row with the sum of the volumes
  of its bars, zero or not; a bucket that holds no close is no row. So there are as many
  rows as observed buckets, and the position of a row is its rank among them, not the
  position of its bucket among the boundaries.
\<close>

theorem rows_are_observed_buckets:
  assumes "price_min df < price_max df" and "2 \<le> bins_count"
  shows "\<exists>rows. volume_profile df bins_count = Inr rows \<and>
           sorted_wrt (<) (map fst rows) \<and>
           length rows =
             length (filter (\<lambda>i. \<exists>b\<in>set df. bins df bins_count ! i < Close b \<and>
                                   Close b \<le> bins df bins_count ! Suc i) [0..<bins_count - 1]) \<and>
           (\<forall>i<bins_count - 1.
              ((bins df bins_count ! i + bins df bins_count ! Suc i) / 2 \<in> fst ` set rows) =
              (\<exists>b\<in>set df. bins df bins_count ! i < Close b \<and> Close b \<le> bins df bins_count ! Suc i)) \<and>
           (\<forall>i<bins_count - 1.
              (\<exists>b\<in>set df. bins df bins_count ! i < Close b \<and> Close b \<le> bins df bins_count ! Suc i) \<longrightarrow>
              ((bins df bins_count ! i + bins df bins_count ! Suc i) / 2,
               sum_list (map Volume (filter (\<lambda>b. bins df bins_count ! i < Close b \<and>
                                               Close b \<le> bins df bins_count ! Suc i) df))) \<in> set rows)"
proof -
  let ?bs = "bins df bins_count"
  let ?m = "bins_count - 1"
  let ?obs = "\<lambda>i. \<exists>b\<in>set df. ?bs ! i < Close b \<and> Close b \<le> ?bs ! Suc i"
  let ?mid = "\<lambda>i. (?bs ! i + ?bs ! Suc i) / 2"
  let ?vol = "\<lambda>i. sum_list (map Volume (filter (\<lambda>b. ?bs ! i < Close b \<and> Close b \<le> ?bs ! Suc i) df))"
  let ?rows = "map (\<lambda>i. (?mid i, ?vol i)) (filter ?obs [0..<?m])"
  note p = bins_props [OF assms]
  have vp: "volume_profile df bins_count = Inr ?rows" using assms by (rule volume_profile_valid)
  have mono: "?mid i < ?mid j" if "i < j" "j < ?m" for i j
    using p(2) that p(1) by (intro mid_strict) simp_all
  note c = rows_core [where m = ?m and mid = ?mid and vol = ?vol and obs = ?obs, OF mono]
  have len: "length ?rows = length (filter ?obs [0..<?m])" by simp
  show ?thesis
  proof (intro exI [of _ ?rows] conjI)
    show "volume_profile df bins_count = Inr ?rows" by (rule vp)
    show "sorted_wrt (<) (map fst ?rows)" by (rule c(1))
    show "length ?rows = length (filter ?obs [0..<?m])" by (rule len)
    show "\<forall>i<?m. (?mid i \<in> fst ` set ?rows) = ?obs i" by (rule c(2))
    show "\<forall>i<?m. ?obs i \<longrightarrow> (?mid i, ?vol i) \<in> set ?rows" by (rule c(3))
  qed
qed

theorem rows_are_observed_buckets_witness:
  "price_min [bar 1 50 2 5, bar 1 50 4 7] < price_max [bar 1 50 2 5, bar 1 50 4 7] \<and>
   (2 :: nat) \<le> 50 \<and>
   volume_profile [bar 1 50 2 5, bar 1 50 4 7] 50 = Inr [(3/2, 5), (7/2, 7)] \<and>
   sorted_wrt (<) (map fst [(3/2 :: rat, 5 :: int), (7/2, 7)])"
proof -
  have a: "price_min [bar 1 50 2 5, bar 1 50 4 7] < price_max [bar 1 50 2 5, bar 1 50 4 7]"
    by (simp add: price_min_def price_max_def bar_sel)
  have b: "(2 :: nat) \<le> 50" by simp
  from rows_are_observed_buckets [OF a b] obtain rows where
    "volume_profile [bar 1 50 2 5, bar 1 50 4 7] 50 = Inr rows" "sorted_wrt (<) (map fst rows)"
    by blast
  then show ?thesis using a gap_profile by simp
qed

text \<open>
  Counterexample to C3 as it was stated: two bars between 1 and 50 with closes 2 and 4,
  and 50 boundaries. The 49 buckets give two rows; the bucket between them, of midpoint
  5/2, is dropped, and row 1 of the profile is bucket 2.
\<close>

theorem empty_bucket_dropped_counterexample:
  "volume_profile [bar 1 50 2 5, bar 1 50 4 7] 50 = Inr [(3/2, 5), (7/2, 7)] \<and>
   length (bin_labels (bins [bar 1 50 2 5, bar 1 50 4 7] 50)) = 49 \<and>
   bin_labels (bins [bar 1 50 2 5, bar 1 50 4 7] 50) ! 1 = 5/2 \<and>
   bin_labels (bins [bar 1 50 2 5, bar 1 50 4 7] 50) ! 2 = 7/2"
proof -
  let ?df = "[bar 1 50 2 5, bar 1 50 4 7]"
  have pm: "price_min ?df = 1" "price_max ?df = 1 + of_nat (50 - 1)"
    by (simp_all add: price_min_def price_max_def bar_sel)
  have nth: "bins ?df 50 ! i = 1 + of_nat i" if "i < 50" for i
    using that pm by (intro unit_bins_nth) simp_all
  have len: "length (bins ?df 50) = 50" by (simp add: bins_def length_np_linspace)
  have "bin_labels (bins ?df 50) ! 1 = 5/2" "bin_labels (bins ?df 50) ! 2 = 7/2"
    using nth [of "Suc 0"] nth [of "Suc (Suc 0)"] nth [of "Suc (Suc (Suc 0))"]
    by (simp_all add: nth_bin_labels len numeral_2_eq_2)
  then show ?thesis using gap_profile by (simp add: length_bin_labels len)
qed

subsection \<open>Volume that is in no row\<close>

text \<open>
  C2 at a concrete input: two bars between 1 and 50, the first closing at 1, which is
  \<open>price_min\<close>, with volume 5, the second closing at 2 with volume 10, and 50 boundaries.
  Both closes are within \<open>[price_min, price_max]\<close> and the bars trade 15, but the profile
  has the single row of volume 10: the volume of the bar that closes at \<open>price_min\<close> is lost.
\<close>

theorem volume_lost_at_price_min:
  "price_min [bar 1 50 1 5, bar 1 50 2 10] = 1 \<and>
   price_max [bar 1 50 1 5, bar 1 50 2 10] = 50 \<and>
   map Close [bar 1 50 1 5, bar 1 50 2 10] = [1, 2] \<and>
   sum_list (map Volume [bar 1 50 1 5, bar 1 50 2 10]) = 15 \<and>
   volume_profile [bar 1 50 1 5, bar 1 50 2 10] 50 = Inr [(3/2, 10)] \<and>
   sum_list (map snd [(3/2 :: rat, 10 :: int)]) = 10"
  by (simp add: low_bars low_profile bar_sel)

section \<open>The point of control\<close>

lemma idxmax_scan_spec:
  assumes "length ps = i" "best < i" "ps ! best = m"
    "\<forall>j<i. ps ! j \<le> m" "\<forall>j<best. ps ! j < m"
  shows "idxmax_scan vs i best m < length (ps @ vs) \<and>
         (\<forall>j<length (ps @ vs). (ps @ vs) ! j \<le> (ps @ vs) ! idxmax_scan vs i best m) \<and>
         (\<forall>j<idxmax_scan vs i best m. (ps @ vs) ! j < (ps @ vs) ! idxmax_scan vs i best m)"
  using assms
proof (induction vs arbitrary: ps i best m)
  case Nil
  then show ?case by simp
next
  case (Cons v vs)
  let ?qs = "ps @ [v]"
  have len: "length ?qs = Suc i" using Cons.prems by simp
  show ?case
  proof (cases "m < v")
    case True
    have a: "i < Suc i" by simp
    have b: "?qs ! i = v" using Cons.prems(1) by (simp add: nth_append)
    have c: "\<forall>j<Suc i. ?qs ! j \<le> v"
      using Cons.prems True by (auto simp: nth_append less_Suc_eq)
    have d: "\<forall>j<i. ?qs ! j < v"
      using Cons.prems True by (auto simp: nth_append)
    from Cons.IH [OF len a b c d] True show ?thesis by simp
  next
    case False
    have a: "best < Suc i" using Cons.prems by simp
    have b: "?qs ! best = m" using Cons.prems by (simp add: nth_append)
    have c: "\<forall>j<Suc i. ?qs ! j \<le> m"
      using Cons.prems False by (auto simp: nth_append less_Suc_eq)
    have d: "\<forall>j<best. ?qs ! j < m"
      using Cons.prems by (auto simp: nth_append)
    from Cons.IH [OF len a b c d] False show ?thesis by simp
  qed
qed

lemma idxmax_first_max:
  assumes "vols \<noteq> []"
  shows "\<exists>k. idxmax vols = Inr k \<and> k < length vols \<and>
             (\<forall>j<length vols. vols ! j \<le> vols ! k) \<and> (\<forall>j<k. vols ! j < vols ! k)"
proof -
  from assms obtain v vs where vols: "vols = v # vs" by (cases vols) auto
  have "idxmax_scan vs 1 0 v < length ([v] @ vs) \<and>
         (\<forall>j<length ([v] @ vs). ([v] @ vs) ! j \<le> ([v] @ vs) ! idxmax_scan vs 1 0 v) \<and>
         (\<forall>j<idxmax_scan vs 1 0 v. ([v] @ vs) ! j < ([v] @ vs) ! idxmax_scan vs 1 0 v)"
    by (rule idxmax_scan_spec) auto
  then show ?thesis by (simp add: vols idxmax_def)
qed

lemma nth_max_is_Max:
  assumes "k < length (vols :: int list)" "\<forall>j<length vols. vols ! j \<le> vols ! k"
  shows "vols ! k = Max (set vols)"
proof -
  have "vols ! k \<in> set vols" using assms(1) by simp
  moreover have "\<forall>v\<in>set vols. v \<le> vols ! k" using assms(2) by (auto simp: in_set_conv_nth)
  ultimately show ?thesis by (intro Max_eqI [symmetric]) auto
qed

lemma idxmax_scan_keeps: "\<forall>v\<in>set vs. v \<le> m \<Longrightarrow> idxmax_scan vs i best m = best"
  by (induction vs arbitrary: i) auto

lemma idxmax_in_range: "idxmax vols = Inr p \<Longrightarrow> p < length vols"
  using idxmax_first_max [of vols] by (cases vols) (auto simp: idxmax_def)

text \<open>
  C6: on a non-empty column of volumes the point of control is the position of the first
  row, in ascending order of price, whose volume is the maximum of the column: no earlier
  row reaches it, so among rows of equal volume the one of lowest price is taken. (The
  volumes need not contain a positive one for this.)
\<close>

theorem poc_is_first_maximum:
  "vols \<noteq> [] \<Longrightarrow>
   \<exists>k. idxmax vols = Inr k \<and> k < length vols \<and> vols ! k = Max (set vols) \<and>
       (\<forall>j<k. vols ! j < vols ! k)"
  using idxmax_first_max [of vols] nth_max_is_Max [of _ vols] by blast

theorem poc_is_first_maximum_witness:
  "[3, 7, 7, 2 :: int] \<noteq> [] \<and>
   (\<exists>k. idxmax [3, 7, 7, 2] = Inr k \<and> k < length [3, 7, 7, 2 :: int] \<and>
       [3, 7, 7, 2] ! k = Max (set [3, 7, 7, 2 :: int]) \<and>
       (\<forall>j<k. [3, 7, 7, 2 :: int] ! j < [3, 7, 7, 2] ! k)) \<and>
   idxmax [3, 7, 7, 2] = Inr 1"
  using poc_is_first_maximum [of "[3, 7, 7, 2]"] by (simp add: idxmax_def)

subsection \<open>Empty profiles and profiles of zero volumes\<close>

lemma sum_list_all_zero: "\<forall>v\<in>set (vs :: int list). v = 0 \<Longrightarrow> sum_list vs = 0"
  by (induction vs) auto

lemma value_area_all_zero:
  assumes "rows \<noteq> []" and "\<forall>r\<in>set rows. snd r = 0"
  shows "idxmax (map snd rows) = Inr 0"
    and "target_vol (map snd rows) va_percent = 0"
    and "map snd rows ! 0 = 0"
    and "va_loop (map snd rows) (target_vol (map snd rows) va_percent) (map snd rows ! 0) 0 0
           = Some (0, 0, 0)"
    and "\<exists>p. value_area rows va_percent = Some (Inr p) \<and>
              poc_idx p = 0 \<and> down_i p = 0 \<and> up_i p = 0 \<and> total_vol p = 0 \<and> vp p = rows"
proof -
  from assms(1) obtain r rs where rows: "rows = r # rs" by (cases rows) auto
  have z: "\<forall>v\<in>set (map snd rows). v = 0" using assms(2) by auto
  show hd0: "map snd rows ! 0 = 0" using rows assms(2) by simp
  show i: "idxmax (map snd rows) = Inr 0"
    using z by (simp add: rows idxmax_def idxmax_scan_keeps)
  have s: "sum_list (map snd rows) = 0" by (rule sum_list_all_zero [OF z])
  show t: "target_vol (map snd rows) va_percent = 0"
    using s by (simp add: target_vol_def)
  show l: "va_loop (map snd rows) (target_vol (map snd rows) va_percent) (map snd rows ! 0) 0 0
           = Some (0, 0, 0)"
    by (subst va_loop.simps) (simp add: t hd0)
  show "\<exists>p. value_area rows va_percent = Some (Inr p) \<and>
              poc_idx p = 0 \<and> down_i p = 0 \<and> up_i p = 0 \<and> total_vol p = 0 \<and> vp p = rows"
    using i l s by (simp add: value_area_def Let_def loc_def rows)
qed

lemma zero_volume_rows:
  assumes "price_min df < price_max df" "2 \<le> n" "b \<in> set df"
    and "price_min df < Close b" "Close b \<le> price_max df" "\<forall>b\<in>set df. Volume b = 0"
  shows "\<exists>rows. volume_profile df n = Inr rows \<and> rows \<noteq> [] \<and> (\<forall>r\<in>set rows. snd r = 0)"
proof -
  let ?bs = "bins df n"
  let ?in = "\<lambda>i b. ?bs ! i < Close b \<and> Close b \<le> ?bs ! Suc i"
  let ?obs = "\<lambda>i. \<exists>b\<in>set df. ?in i b"
  let ?vol = "\<lambda>i. sum_list (map Volume (filter (?in i) df))"
  let ?rows = "map (\<lambda>i. ((?bs ! i + ?bs ! Suc i) / 2, ?vol i)) (filter ?obs [0..<n - 1])"
  note p = bins_props [OF assms(1,2)]
  have vp: "volume_profile df n = Inr ?rows" using assms(1,2) by (rule volume_profile_valid)
  have "\<exists>i. cut_code ?bs (Close b) = Some i"
    using assms(4,5) p by (simp add: cut_code_Some_iff)
  then obtain i where "cut_code ?bs (Close b) = Some i" ..
  then have i: "Suc i < length ?bs" "?in i b" by (simp_all add: cut_code_iff [OF p(3)])
  then have "i < n - 1" using p(1) by simp
  moreover have "?obs i" using i(2) assms(3) by blast
  ultimately have "i \<in> set (filter ?obs [0..<n - 1])" by simp
  then have "filter ?obs [0..<n - 1] \<noteq> []" by (metis empty_iff list.set(1))
  then have ne: "?rows \<noteq> []" by (simp only: map_is_Nil_conv not_False_eq_True)
  have "?vol i = 0" for i
  proof -
    have "\<forall>v\<in>set (map Volume (filter (?in i) df)). v = 0" using assms(6) by auto
    then show ?thesis by (rule sum_list_all_zero)
  qed
  then have "\<forall>r\<in>set ?rows. snd r = 0" by auto
  with vp ne show ?thesis by blast
qed

text \<open>
  C4, as amended: computing the point of control fails exactly when the profile has no
  row, with the \<open>ValueError\<close> of \<open>idxmax\<close> on an empty column. When the profile has rows
  and every volume is 0 it does not fail and gives row 0. In particular a single bar of
  volume 0 whose close is above its low and at most its high yields a profile, with the
  point of control at row 0 and total volume 0, for any count of at least two boundaries.
\<close>

theorem poc_fails_only_on_empty_profile:
  "(idxmax (map snd rows) = Inl ValueError \<longleftrightarrow> rows = []) \<and>
   (rows = [] \<longrightarrow> value_area rows va_percent = Some (Inl ValueError)) \<and>
   (rows \<noteq> [] \<longrightarrow> (\<forall>r\<in>set rows. snd r = 0) \<longrightarrow>
      (\<exists>p. value_area rows va_percent = Some (Inr p) \<and> poc_idx p = 0)) \<and>
   (Low b < Close b \<longrightarrow> Close b \<le> High b \<longrightarrow> Volume b = 0 \<longrightarrow> 2 \<le> bins_count \<longrightarrow>
      (\<exists>p. compute_profile [b] bins_count va_percent = Some (Inr p) \<and>
           poc_idx p = 0 \<and> total_vol p = 0))"
proof (intro conjI impI)
  show "idxmax (map snd rows) = Inl ValueError \<longleftrightarrow> rows = []"
    by (cases rows) (simp_all add: idxmax_def)
next
  assume "rows = []"
  then show "value_area rows va_percent = Some (Inl ValueError)"
    by (simp add: value_area_def idxmax_def)
next
  assume "rows \<noteq> []" "\<forall>r\<in>set rows. snd r = 0"
  then show "\<exists>p. value_area rows va_percent = Some (Inr p) \<and> poc_idx p = 0"
    using value_area_all_zero(5) [of rows va_percent] by blast
next
  assume b: "Low b < Close b" "Close b \<le> High b" "Volume b = 0" "2 \<le> bins_count"
  have pm: "price_min [b] = Low b" "price_max [b] = High b"
    by (simp_all add: price_min_def price_max_def)
  have "\<exists>rows. volume_profile [b] bins_count = Inr rows \<and> rows \<noteq> [] \<and> (\<forall>r\<in>set rows. snd r = 0)"
    using b by (intro zero_volume_rows [where b = b]) (simp_all add: pm)
  then obtain rs where rs: "volume_profile [b] bins_count = Inr rs" "rs \<noteq> []" "\<forall>r\<in>set rs. snd r = 0"
    by blast
  from value_area_all_zero(5) [OF rs(2,3), of va_percent] rs(1)
  show "\<exists>p. compute_profile [b] bins_count va_percent = Some (Inr p) \<and>
           poc_idx p = 0 \<and> total_vol p = 0"
    by (auto simp: compute_profile_def)
qed

theorem poc_fails_only_on_empty_profile_witness:
  "[(3/2 :: rat, 0 :: int)] \<noteq> [] \<and> Low (bar 1 50 2 0) < Close (bar 1 50 2 0) \<and>
   Close (bar 1 50 2 0) \<le> High (bar 1 50 2 0) \<and> Volume (bar 1 50 2 0) = 0 \<and> (2 :: nat) \<le> 50 \<and>
   value_area [] (7/10) = Some (Inl ValueError) \<and>
   (\<exists>p. value_area [(3/2, 0)] (7/10) = Some (Inr p) \<and> poc_idx p = 0) \<and>
   (\<exists>p. compute_profile [bar 1 50 2 0] 50 (7/10) = Some (Inr p) \<and> poc_idx p = 0 \<and> total_vol p = 0)"
  using poc_fails_only_on_empty_profile [of "[]" "7/10" "bar 1 50 2 0" 50]
    poc_fails_only_on_empty_profile [of "[(3/2, 0)]" "7/10" "bar 1 50 2 0" 50]
  by (simp add: bar_sel)

text \<open>
  Counterexample to C4 as it was stated: a single bar from 1 to 50 closing at 2 with
  volume 0, 50 boundaries and \<open>va_percent = 0.7\<close>. The computation returns a profile of one
  row of volume 0, with the point of control and the value area at that row.
\<close>

theorem zero_volume_bar_counterexample:
  "Volume (bar 1 50 2 0) = 0 \<and>
   compute_profile [bar 1 50 2 0] 50 (7/10) =
     Some (Inr \<lparr>vp = [(3/2, 0)], poc_idx = 0, poc_price = 3/2, total_vol = 0,
                 up_i = 0, down_i = 0, vah = 3/2, val = 3/2\<rparr>)"
proof -
  have "value_area [(3/2, 0)] (7/10) =
     Some (Inr \<lparr>vp = [(3/2, 0)], poc_idx = 0, poc_price = 3/2, total_vol = 0,
                 up_i = 0, down_i = 0, vah = 3/2, val = 3/2\<rparr>)"
    by code_simp
  then show ?thesis by (simp add: compute_profile_def zero_profile bar_sel)
qed

section \<open>The value area\<close>

subsection \<open>The indices only move outwards\<close>

lemma va_loop_widens:
  assumes "va_loop vols t c u d = Some r"
  shows "u \<le> fst (snd r) \<and> snd (snd r) \<le> d"
proof (rule va_loop.raw_induct
    [where P = "\<lambda>vols t c u d r. u \<le> fst (snd r) \<and> snd (snd r) \<le> d", OF _ assms])
  fix f and vols :: "int list" and t :: rat and c u d :: int and r :: "int \<times> int \<times> int"
  assume IH: "\<And>vols t c u d r. f vols t c u d = Some r \<Longrightarrow> u \<le> fst (snd r) \<and> snd (snd r) \<le> d"
    and body: "(if of_int c < t
      then if v_up vols u = 0 \<and> v_down vols d = 0 then Some (c, u, d)
           else if v_down vols d \<le> v_up vols u
                then f vols t (c + v_up vols u) (u + 1) d
                else f vols t (c + v_down vols d) u (d - 1)
      else Some (c, u, d)) = Some r"
  show "u \<le> fst (snd r) \<and> snd (snd r) \<le> d"
    using body by (auto split: if_splits dest!: IH)
qed

text \<open>
  C8: in every profile the computation returns, the lower index of the value area is at
  most the index of the point of control, which is at most the upper index, whichever way
  the loop was left.
\<close>

theorem value_area_contains_poc:
  assumes "compute_profile df bins_count va_percent = Some (Inr p)"
  shows "down_i p \<le> poc_idx p \<and> poc_idx p \<le> up_i p"
proof -
  from assms obtain rows where "value_area rows va_percent = Some (Inr p)"
    by (auto simp: compute_profile_def split: if_splits sum.splits)
  then obtain k c where
    loop: "va_loop (map snd rows) (target_vol (map snd rows) va_percent) (map snd rows ! k) (int k) (int k)
             = Some (c, up_i p, down_i p)"
    and poc: "poc_idx p = int k"
    by (auto simp: value_area_def Let_def split: sum.splits option.splits prod.splits)
  from va_loop_widens [OF loop] poc show ?thesis by simp
qed

theorem value_area_contains_poc_witness:
  "compute_profile [bar 1 50 2 5, bar 1 50 3 3, bar 1 50 4 7, bar 1 50 5 1] 50 (7/10) =
     Some (Inr \<lparr>vp = [(3/2, 5), (5/2, 3), (7/2, 7), (9/2, 1)], poc_idx = 2, poc_price = 7/2,
                 total_vol = 16, up_i = 2, down_i = 0, vah = 7/2, val = 3/2\<rparr>) \<and>
   down_i \<lparr>vp = [(3/2, 5), (5/2, 3), (7/2, 7), (9/2, 1 :: int)], poc_idx = 2, poc_price = 7/2,
           total_vol = 16, up_i = 2, down_i = 0, vah = 7/2, val = 3/2 :: rat\<rparr> \<le> 2 \<and>
   (2 :: int) \<le> up_i \<lparr>vp = [(3/2, 5), (5/2, 3), (7/2, 7), (9/2, 1 :: int)], poc_idx = 2,
           poc_price = 7/2, total_vol = 16, up_i = 2, down_i = 0, vah = 7/2, val = 3/2 :: rat\<rparr>"
proof -
  have v: "value_area [(3/2, 5), (5/2, 3), (7/2, 7), (9/2, 1)] (7/10) =
     Some (Inr \<lparr>vp = [(3/2, 5), (5/2, 3), (7/2, 7), (9/2, 1)], poc_idx = 2, poc_price = 7/2,
                 total_vol = 16, up_i = 2, down_i = 0, vah = 7/2, val = 3/2\<rparr>)"
    by code_simp
  have h: "compute_profile [bar 1 50 2 5, bar 1 50 3 3, bar 1 50 4 7, bar 1 50 5 1] 50 (7/10) =
     Some (Inr \<lparr>vp = [(3/2, 5), (5/2, 3), (7/2, 7), (9/2, 1)], poc_idx = 2, poc_price = 7/2,
                 total_vol = 16, up_i = 2, down_i = 0, vah = 7/2, val = 3/2\<rparr>)"
    by (simp add: compute_profile_def four_profile v)
  show ?thesis using h value_area_contains_poc [OF h] by simp
qed

subsection \<open>The loop ends\<close>

lemma va_loop_total:
  assumes "\<forall>v\<in>set vols. 0 \<le> v" "0 \<le> d" "d \<le> u" "u < int (length vols)"
  shows "\<exists>c' u' d'. va_loop vols t c u d = Some (c', u', d') \<and> 0 \<le> d' \<and> d' \<le> d \<and> u \<le> u' \<and> u' < int (length vols)"
  using assms(2-)
proof (induction "nat (int (length vols) - u + d)" arbitrary: c u d rule: less_induct)
  case less
  have vu: "0 \<le> v_up vols u" using assms(1) less.prems by (auto simp: v_up_def)
  have vd: "0 \<le> v_down vols d" using assms(1) less.prems by (auto simp: v_down_def)
  show ?case
  proof (cases "of_int c < t")
    case False
    then show ?thesis using less.prems by (subst va_loop.simps) simp
  next
    case True
    show ?thesis
    proof (cases "v_up vols u = 0 \<and> v_down vols d = 0")
      case True
      then show ?thesis using less.prems \<open>of_int c < t\<close> by (subst va_loop.simps) simp
    next
      case nz: False
      show ?thesis
      proof (cases "v_down vols d \<le> v_up vols u")
        case True
        with nz vu vd have "v_up vols u \<noteq> 0" by auto
        then have up: "u + 1 < int (length vols)" by (auto simp: v_up_def split: if_splits)
        have "\<exists>c' u' d'. va_loop vols t (c + v_up vols u) (u + 1) d = Some (c', u', d') \<and> 0 \<le> d' \<and> d' \<le> d \<and> u + 1 \<le> u' \<and> u' < int (length vols)"
          using less.prems up by (intro less.hyps) auto
        then show ?thesis using nz True \<open>of_int c < t\<close>
          by (subst va_loop.simps) auto
      next
        case False
        with nz vu vd have "v_down vols d \<noteq> 0" by auto
        then have dn: "0 \<le> d - 1" by (auto simp: v_down_def split: if_splits)
        have "\<exists>c' u' d'. va_loop vols t (c + v_down vols d) u (d - 1) = Some (c', u', d') \<and> 0 \<le> d' \<and> d' \<le> d - 1 \<and> u \<le> u' \<and> u' < int (length vols)"
          using less.prems dn by (intro less.hyps) auto
        then show ?thesis using nz False \<open>of_int c < t\<close>
          by (subst va_loop.simps) auto
      qed
    qed
  qed
qed

lemma value_area_total:
  assumes "\<forall>r\<in>set rows. 0 \<le> snd r"
  shows "value_area rows va \<noteq> None"
proof (cases "idxmax (map snd rows)")
  case (Inl e)
  then show ?thesis by (simp add: value_area_def)
next
  case (Inr p)
  then have p: "p < length (map snd rows)" by (rule idxmax_in_range)
  have "\<forall>v\<in>set (map snd rows). 0 \<le> v" using assms by auto
  then have "\<exists>c' u' d'. va_loop (map snd rows) (target_vol (map snd rows) va) (map snd rows ! p) (int p) (int p)
      = Some (c', u', d') \<and> 0 \<le> d' \<and> d' \<le> int p \<and> int p \<le> u' \<and> u' < int (length (map snd rows))"
    using p by (intro va_loop_total) auto
  then show ?thesis using Inr
    by (auto simp: value_area_def Let_def loc_def split: sum.splits)
qed

text \<open>
  C9: on a profile whose volumes are not negative (they are sums of traded volumes), from
  any pair of indices \<open>0 \<le> down \<le> up < len(vp)\<close>, any accumulated volume and any
  target, so any \<open>va_percent\<close>, the loop ends, with both indices still rows of the profile.
  One pass of the loop, when the condition holds, either finds both neighbours 0 (a
  neighbour that is no row counting 0) and leaves by \<open>break\<close>, or goes on from \<open>up + 1\<close>, which
  is a row, with \<open>down\<close> unchanged, or goes on from \<open>down - 1\<close>, which is a row, with \<open>up\<close>
  unchanged.
\<close>

theorem va_loop_terminates:
  assumes "\<forall>v\<in>set vols. 0 \<le> v" and "0 \<le> down" and "down \<le> up" and "up < int (length vols)"
  shows "(\<exists>c' u' d'. va_loop vols t c up down = Some (c', u', d') \<and>
            0 \<le> d' \<and> d' \<le> down \<and> up \<le> u' \<and> u' < int (length vols)) \<and>
         (of_int c < t \<longrightarrow>
            (v_up vols up = 0 \<and> v_down vols down = 0 \<and>
               va_loop vols t c up down = Some (c, up, down)) \<or>
            (up + 1 < int (length vols) \<and>
               va_loop vols t c up down = va_loop vols t (c + v_up vols up) (up + 1) down) \<or>
            (0 \<le> down - 1 \<and>
               va_loop vols t c up down = va_loop vols t (c + v_down vols down) up (down - 1)))"
proof
  show "\<exists>c' u' d'. va_loop vols t c up down = Some (c', u', d') \<and>
            0 \<le> d' \<and> d' \<le> down \<and> up \<le> u' \<and> u' < int (length vols)"
    using assms by (rule va_loop_total)
next
  have vu: "0 \<le> v_up vols up" using assms by (auto simp: v_up_def)
  have vd: "0 \<le> v_down vols down" using assms by (auto simp: v_down_def)
  show "of_int c < t \<longrightarrow>
            (v_up vols up = 0 \<and> v_down vols down = 0 \<and>
               va_loop vols t c up down = Some (c, up, down)) \<or>
            (up + 1 < int (length vols) \<and>
               va_loop vols t c up down = va_loop vols t (c + v_up vols up) (up + 1) down) \<or>
            (0 \<le> down - 1 \<and>
               va_loop vols t c up down = va_loop vols t (c + v_down vols down) up (down - 1))"
  proof
    assume lt: "of_int c < t"
    consider (brk) "v_up vols up = 0 \<and> v_down vols down = 0"
      | (upw) "\<not> (v_up vols up = 0 \<and> v_down vols down = 0)" "v_down vols down \<le> v_up vols up"
      | (dnw) "\<not> (v_up vols up = 0 \<and> v_down vols down = 0)" "\<not> v_down vols down \<le> v_up vols up"
      by blast
    then show "(v_up vols up = 0 \<and> v_down vols down = 0 \<and>
               va_loop vols t c up down = Some (c, up, down)) \<or>
            (up + 1 < int (length vols) \<and>
               va_loop vols t c up down = va_loop vols t (c + v_up vols up) (up + 1) down) \<or>
            (0 \<le> down - 1 \<and>
               va_loop vols t c up down = va_loop vols t (c + v_down vols down) up (down - 1))"
    proof cases
      case brk
      then have "va_loop vols t c up down = Some (c, up, down)"
        using lt by (subst va_loop.simps) simp
      then show ?thesis using brk by simp
    next
      case upw
      then have nz: "v_up vols up \<noteq> 0" using vu vd by auto
      then have "up + 1 < int (length vols)" by (auto simp: v_up_def split: if_splits)
      moreover have "va_loop vols t c up down = va_loop vols t (c + v_up vols up) (up + 1) down"
        using lt upw(2) nz by (subst va_loop.simps) simp
      ultimately show ?thesis by simp
    next
      case dnw
      then have nz: "v_down vols down \<noteq> 0" using vu vd by auto
      then have "0 \<le> down - 1" by (auto simp: v_down_def split: if_splits)
      moreover have "va_loop vols t c up down = va_loop vols t (c + v_down vols down) up (down - 1)"
        using lt dnw(2) nz by (subst va_loop.simps) simp
      ultimately show ?thesis by simp
    qed
  qed
qed

theorem va_loop_terminates_witness:
  "(0 :: int) \<le> 2 \<and> (2 :: int) \<le> 2 \<and>
   (2 :: int) < int (length [5, 3, 7, 1 :: int]) \<and>
   va_loop [5, 3, 7, 1] (56/5) 7 2 2 = Some (15, 2, 0) \<and>
   va_loop [5, 3, 7, 1] (56/5) 7 2 2 = va_loop [5, 3, 7, 1] (56/5) 10 2 1"
proof -
  have a: "\<forall>v\<in>set [5, 3, 7, 1 :: int]. 0 \<le> v" by simp
  have b: "(0 :: int) \<le> 2" "(2 :: int) \<le> 2" "(2 :: int) < int (length [5, 3, 7, 1 :: int])" by simp_all
  have r: "va_loop [5, 3, 7, 1] (56/5) 7 2 2 = Some (15, 2, 0)" by code_simp
  have s: "va_loop [5, 3, 7, 1] (56/5) 10 2 1 = Some (15, 2, 0)" by code_simp
  from va_loop_terminates [OF a b, where c = 7 and t = "56/5"] a b r s show ?thesis by simp
qed

subsection \<open>A profile of zero volumes\<close>

text \<open>
  C10: when the profile has rows and every volume is 0, nothing is raised: \<open>idxmax\<close> gives
  row 0, the target volume is 0, the condition of the loop is false at its first test, so
  its body never runs, and the value area is row 0 alone (\<open>down_i = poc_idx = up_i = 0\<close>).
\<close>

theorem all_zero_profile:
  assumes "rows \<noteq> []" and "\<forall>r\<in>set rows. snd r = 0"
  shows "idxmax (map snd rows) = Inr 0 \<and>
         target_vol (map snd rows) va_percent = 0 \<and>
         \<not> of_int (map snd rows ! 0) < target_vol (map snd rows) va_percent \<and>
         va_loop (map snd rows) (target_vol (map snd rows) va_percent) (map snd rows ! 0) 0 0
           = Some (0, 0, 0) \<and>
         (\<exists>p. value_area rows va_percent = Some (Inr p) \<and>
              poc_idx p = 0 \<and> down_i p = 0 \<and> up_i p = 0)"
proof -
  note z = value_area_all_zero [OF assms]
  have "\<not> of_int (map snd rows ! 0) < target_vol (map snd rows) va_percent"
    by (simp add: z(2,3))
  moreover have "\<exists>p. value_area rows va_percent = Some (Inr p) \<and>
              poc_idx p = 0 \<and> down_i p = 0 \<and> up_i p = 0"
    using z(5) by blast
  ultimately show ?thesis using z(1,2,4) by blast
qed

theorem all_zero_profile_witness:
  "[(5/2 :: rat, 0), (7/2, 0 :: int)] \<noteq> [] \<and>
   idxmax (map snd [(5/2 :: rat, 0), (7/2, 0 :: int)]) = Inr 0 \<and>
   value_area [(5/2, 0), (7/2, 0)] (7/10) =
     Some (Inr \<lparr>vp = [(5/2, 0), (7/2, 0)], poc_idx = 0, poc_price = 5/2, total_vol = 0,
                 up_i = 0, down_i = 0, vah = 5/2, val = 5/2\<rparr>)"
proof -
  have v: "value_area [(5/2, 0), (7/2, 0)] (7/10) =
     Some (Inr \<lparr>vp = [(5/2, 0), (7/2, 0)], poc_idx = 0, poc_price = 5/2, total_vol = 0,
                 up_i = 0, down_i = 0, vah = 5/2, val = 5/2\<rparr>)" by code_simp
  show ?thesis using all_zero_profile [of "[(5/2, 0), (7/2, 0)]" "7/10"] v by simp
qed

subsection \<open>The volume of the value area at the exit of the loop\<close>

lemma band_volume_single: "0 \<le> p \<Longrightarrow> band_volume vols p p = vols ! nat p"
  by (simp add: band_volume_def)

lemma band_volume_up:
  assumes "0 \<le> d" "d \<le> u"
  shows "band_volume vols d (u + 1) = band_volume vols d u + vols ! nat (u + 1)"
proof -
  have "nat (u + 1) = Suc (nat u)" using assms by simp
  moreover have "nat d \<le> Suc (nat u)" using assms by simp
  ultimately show ?thesis by (simp add: band_volume_def)
qed

lemma band_volume_down:
  assumes "0 \<le> d - 1" "d \<le> u"
  shows "band_volume vols (d - 1) u = band_volume vols d u + vols ! nat (d - 1)"
proof -
  have "Suc (nat (d - 1)) = nat d" using assms by simp
  moreover have "nat (d - 1) < nat u + 1" using assms by simp
  ultimately have "[nat (d - 1)..<nat u + 1] = nat (d - 1) # [nat d..<nat u + 1]"
    by (metis upt_conv_Cons)
  then show ?thesis by (simp add: band_volume_def)
qed

lemma va_loop_exit:
  assumes "va_loop vols t c u d = Some r"
  shows "(\<forall>v\<in>set vols. 0 \<le> v) \<longrightarrow> va_inv vols c u d \<longrightarrow>
         va_inv vols (fst r) (fst (snd r)) (snd (snd r)) \<and>
         (t \<le> of_int (fst r) \<or>
          (of_int (fst r) < t \<and> v_up vols (fst (snd r)) = 0 \<and> v_down vols (snd (snd r)) = 0))"
proof (rule va_loop.raw_induct
    [where P = "\<lambda>vols t c u d r. (\<forall>v\<in>set vols. 0 \<le> v) \<longrightarrow> va_inv vols c u d \<longrightarrow>
         va_inv vols (fst r) (fst (snd r)) (snd (snd r)) \<and>
         (t \<le> of_int (fst r) \<or>
          (of_int (fst r) < t \<and> v_up vols (fst (snd r)) = 0 \<and> v_down vols (snd (snd r)) = 0))", OF _ assms])
  fix f and vols :: "int list" and t :: rat and c u d :: int and r :: "int \<times> int \<times> int"
  assume IH: "\<And>vols t c u d r. f vols t c u d = Some r \<Longrightarrow>
         (\<forall>v\<in>set vols. 0 \<le> v) \<longrightarrow> va_inv vols c u d \<longrightarrow>
         va_inv vols (fst r) (fst (snd r)) (snd (snd r)) \<and>
         (t \<le> of_int (fst r) \<or>
          (of_int (fst r) < t \<and> v_up vols (fst (snd r)) = 0 \<and> v_down vols (snd (snd r)) = 0))"
    and body: "(if of_int c < t
      then if v_up vols u = 0 \<and> v_down vols d = 0 then Some (c, u, d)
           else if v_down vols d \<le> v_up vols u
                then f vols t (c + v_up vols u) (u + 1) d
                else f vols t (c + v_down vols d) u (d - 1)
      else Some (c, u, d)) = Some r"
  show "(\<forall>v\<in>set vols. 0 \<le> v) \<longrightarrow> va_inv vols c u d \<longrightarrow>
         va_inv vols (fst r) (fst (snd r)) (snd (snd r)) \<and>
         (t \<le> of_int (fst r) \<or>
          (of_int (fst r) < t \<and> v_up vols (fst (snd r)) = 0 \<and> v_down vols (snd (snd r)) = 0))"
  proof (intro impI)
    assume nonneg: "\<forall>v\<in>set vols. 0 \<le> v" and inv: "va_inv vols c u d"
    have vu: "0 \<le> v_up vols u" using nonneg inv by (auto simp: v_up_def va_inv_def)
    have vd: "0 \<le> v_down vols d" using nonneg inv by (auto simp: v_down_def va_inv_def)
    consider (stop) "\<not> of_int c < t"
      | (brk) "of_int c < t" "v_up vols u = 0 \<and> v_down vols d = 0"
      | (up) "of_int c < t" "\<not> (v_up vols u = 0 \<and> v_down vols d = 0)" "v_down vols d \<le> v_up vols u"
      | (down) "of_int c < t" "\<not> (v_up vols u = 0 \<and> v_down vols d = 0)" "\<not> v_down vols d \<le> v_up vols u"
      by blast
    then show "va_inv vols (fst r) (fst (snd r)) (snd (snd r)) \<and>
         (t \<le> of_int (fst r) \<or>
          (of_int (fst r) < t \<and> v_up vols (fst (snd r)) = 0 \<and> v_down vols (snd (snd r)) = 0))"
    proof cases
      case stop
      then show ?thesis using body inv by auto
    next
      case brk
      then show ?thesis using body inv by auto
    next
      case up
      then have "v_up vols u \<noteq> 0" using vu vd by auto
      then have lt: "u + 1 < int (length vols)" and eq: "v_up vols u = vols ! nat (u + 1)"
        by (auto simp: v_up_def split: if_splits)
      have "va_inv vols (c + v_up vols u) (u + 1) d"
        using inv lt eq by (simp add: va_inv_def band_volume_up)
      moreover have "f vols t (c + v_up vols u) (u + 1) d = Some r" using body up by simp
      ultimately show ?thesis using IH nonneg by blast
    next
      case down
      then have "v_down vols d \<noteq> 0" using vu vd by auto
      then have ge: "0 \<le> d - 1" and eq: "v_down vols d = vols ! nat (d - 1)"
        by (auto simp: v_down_def split: if_splits)
      have "va_inv vols (c + v_down vols d) u (d - 1)"
        using inv ge eq by (simp add: va_inv_def band_volume_down)
      moreover have "f vols t (c + v_down vols d) u (d - 1) = Some r" using body down by simp
      ultimately show ?thesis using IH nonneg by blast
    qed
  qed
qed

text \<open>
  C7, as amended: on a profile whose volumes are not negative, when the loop started at the
  point of control ends, the accumulated volume is the volume of the rows \<open>down_i\<close> to
  \<open>up_i\<close>; it is at least \<open>va_percent\<close> times the total volume unless the loop was left by
  \<open>break\<close>; and when it was left by \<open>break\<close>, both neighbours of the band are 0 (a
  neighbour that is no row counting 0) and the accumulated volume is below the target, so
  for \<open>va_percent \<le> 1\<close> it is strictly less than the volume of the whole profile.
\<close>

theorem value_area_exit:
  assumes "\<forall>v\<in>set vols. 0 \<le> v" and "idxmax vols = Inr p"
    and "va_loop vols (target_vol vols va_percent) (vols ! p) (int p) (int p) = Some (c, u, d)"
  shows "c = band_volume vols d u \<and>
         (target_vol vols va_percent \<le> of_int c \<or>
          (of_int c < target_vol vols va_percent \<and> v_up vols u = 0 \<and> v_down vols d = 0)) \<and>
         (of_int c < target_vol vols va_percent \<longrightarrow> va_percent \<le> 1 \<longrightarrow> c < sum_list vols)"
proof -
  have p: "p < length vols" using assms(2) by (rule idxmax_in_range)
  then have inv: "va_inv vols (vols ! p) (int p) (int p)"
    by (simp add: va_inv_def band_volume_single)
  from va_loop_exit [OF assms(3)] assms(1) inv
  have e: "va_inv vols c u d \<and>
         (target_vol vols va_percent \<le> of_int c \<or>
          (of_int c < target_vol vols va_percent \<and> v_up vols u = 0 \<and> v_down vols d = 0))"
    by simp
  have tot: "0 \<le> sum_list vols" using assms(1) by (simp add: sum_list_nonneg)
  have "c < sum_list vols" if lt: "of_int c < target_vol vols va_percent" and va: "va_percent \<le> 1"
  proof -
    have "target_vol vols va_percent \<le> of_int (sum_list vols)"
      using tot va by (simp add: target_vol_def mult_left_le)
    with lt have "(of_int c :: rat) < of_int (sum_list vols)" by simp
    then show ?thesis by simp
  qed
  moreover have "c = band_volume vols d u" using e by (simp add: va_inv_def)
  ultimately show ?thesis using e by blast
qed

theorem value_area_exit_witness:
  "idxmax [5, 0, 7] = Inr 2 \<and>
   va_loop [5, 0, 7] (target_vol [5, 0, 7] (7/10)) ([5, 0, 7] ! 2) (int 2) (int 2) = Some (7, 2, 2) \<and>
   band_volume [5, 0, 7] 2 2 = 7 \<and> (7 :: int) < sum_list [5, 0, 7]"
proof -
  have a: "\<forall>v\<in>set [5, 0, 7 :: int]. 0 \<le> v" by simp
  have b: "idxmax [5, 0, 7] = Inr 2" by code_simp
  have c: "va_loop [5, 0, 7] (target_vol [5, 0, 7] (7/10)) ([5, 0, 7] ! 2) (int 2) (int 2) = Some (7, 2, 2)"
    by code_simp
  have d: "(of_int 7 :: rat) < target_vol [5, 0, 7] (7/10)" by (simp add: target_vol_def)
  from value_area_exit [OF a b c] a b c d show ?thesis by simp
qed

text \<open>
  Counterexample to C7 as it was stated: three bars between 1 and 50 that close in three
  neighbouring buckets with volumes 5, 0 and 7, 50 boundaries and \<open>va_percent = 0.7\<close>. The
  loop starts at the row of volume 7, finds the neighbour below 0 and no neighbour above,
  and leaves by \<open>break\<close> with 7, while the whole profile has 12.
\<close>

theorem early_halt_counterexample:
  "volume_profile [bar 1 50 2 5, bar 1 50 3 0, bar 1 50 4 7] 50 = Inr [(3/2, 5), (5/2, 0), (7/2, 7)] \<and>
   idxmax [5, 0, 7] = Inr 2 \<and>
   va_loop [5, 0, 7] (target_vol [5, 0, 7] (7/10)) 7 2 2 = Some (7, 2, 2) \<and>
   (of_int 7 :: rat) < target_vol [5, 0, 7] (7/10) \<and>
   v_up [5, 0, 7] 2 = 0 \<and> v_down [5, 0, 7] 2 = 0 \<and>
   band_volume [5, 0, 7] 2 2 = 7 \<and> sum_list [5, 0, 7 :: int] = 12"
proof -
  have "idxmax [5, 0, 7] = Inr 2" by code_simp
  moreover have "va_loop [5, 0, 7] (target_vol [5, 0, 7] (7/10)) 7 2 2 = Some (7, 2, 2)" by code_simp
  moreover have "(of_int 7 :: rat) < target_vol [5, 0, 7] (7/10)" by (simp add: target_vol_def)
  moreover have "v_up [5, 0, 7] 2 = 0 \<and> v_down [5, 0, 7] 2 = 0" by (simp add: v_up_def v_down_def)
  moreover have "band_volume [5, 0, 7] 2 2 = 7" by (simp add: band_volume_def)
  ultimately show ?thesis using three_profile by simp
qed

end
